theory Spec2Isabelle
  imports Main "HOL-Library.AList" "HOL-Library.Monad_Syntax"
begin

section \<open>The concurrent store of \<^verbatim>\<open>src/store/memory-store.js\<close>\<close>

text \<open>
  The class \<^verbatim>\<open>ConcurrentStore\<close> keeps four insertion-ordered JavaScript \<^verbatim>\<open>Map\<close>s
  (chats, messages by chat, contacts, group metadata), a backup of them, a few flags and
  counters, and it reads and writes a snapshot file. The embedding passes the store as an
  explicit state record. Each method becomes a function from the state before the call to
  the state after it; the clock reading \<^verbatim>\<open>Date.now()\<close> is an argument.
\<close>

subsection \<open>JavaScript maps and sets\<close>

text \<open>
  A \<^verbatim>\<open>Map\<close> iterates in insertion order, and \<^verbatim>\<open>set\<close> on a key that is present replaces
  the value where it stands. Both matter to the eviction (its sort is stable), so a map is
  an association list with distinct keys, in insertion order.
\<close>

type_synonym ('k, 'v) jsmap = "('k \<times> 'v) list"

definition map_has :: "'k \<Rightarrow> ('k, 'v) jsmap \<Rightarrow> bool" where
  "map_has k m = (map_of m k \<noteq> None)"

definition map_get :: "'k \<Rightarrow> ('k, 'v) jsmap \<Rightarrow> 'v option" where
  "map_get k m = map_of m k"

definition map_set :: "'k \<Rightarrow> 'v \<Rightarrow> ('k, 'v) jsmap \<Rightarrow> ('k, 'v) jsmap" where
  "map_set k v m = AList.update k v m"

definition map_delete :: "'k \<Rightarrow> ('k, 'v) jsmap \<Rightarrow> ('k, 'v) jsmap" where
  "map_delete k m = AList.delete k m"

text \<open>A \<^verbatim>\<open>Set\<close> of strings, in insertion order: \<^verbatim>\<open>add\<close> of a member changes nothing.\<close>

definition set_add :: "'a \<Rightarrow> 'a list \<Rightarrow> 'a list" where
  "set_add x xs = (if x \<in> set xs then xs else xs @ [x])"

subsection \<open>Records of the data model\<close>

type_synonym jid = string
type_synonym path = string

text \<open>
  A message as the transport delivers it. \<^verbatim>\<open>key_remoteJid\<close> and \<^verbatim>\<open>key_id\<close> are
  \<^verbatim>\<open>msg.key.remoteJid\<close> and \<^verbatim>\<open>msg.key.id\<close>; \<^verbatim>\<open>historySyncNotification\<close> says whether
  \<^verbatim>\<open>message?.message?.protocolMessage?.historySyncNotification\<close> is truthy;
  \<^verbatim>\<open>messageTimestamp\<close> is a number or missing; \<^verbatim>\<open>body\<close> stands for the rest of the payload.
  \<^verbatim>\<open>timestamp\<close> and \<^verbatim>\<open>indexed\<close> are the two fields the store adds.
\<close>

record message =
  key_remoteJid :: jid
  key_id :: string
  fromMe :: bool
  historySyncNotification :: bool
  messageTimestamp :: "int option"
  body :: string
  timestamp :: "nat option"
  indexed :: bool

text \<open>
  A chat object. The fields the store itself reads or writes are typed (a number or
  missing); \<^verbatim>\<open>attrs\<close> holds every other field the transport supplies, by name, in
  property order. An update handed to \<^verbatim>\<open>updateChat\<close> has the same shape: a missing field
  is one the update does not name.
\<close>

record chat =
  chat_id :: jid
  unreadCount :: "int option"
  conversationTimestamp :: "int option"
  createdAt :: "nat option"
  lastUpdated :: "nat option"
  syncedAt :: "nat option"
  attrs :: "(string, string) jsmap"

record contact =
  contact_id :: jid
  contact_lastUpdated :: "nat option"
  contact_attrs :: "(string, string) jsmap"

record group_meta =
  group_id :: jid
  group_lastUpdated :: "nat option"
  group_attrs :: "(string, string) jsmap"

record stats =
  totalMessages :: nat
  totalChats :: nat
  totalContacts :: nat
  lastSave :: "nat option"
  operations :: nat

text \<open>
  The options the modelled methods read. \<^verbatim>\<open>maxMessagesPerChat\<close> is a count of messages.
\<close>

record config =
  maxMessagesPerChat :: nat
  storeFile :: path
  preserveDataDuringSync :: bool
  backupBeforeSync :: bool
  incrementalSave :: bool

text \<open>
  Chat objects are the one kind of value the store mutates in place
  (\<^verbatim>\<open>Object.assign(existing, ...)\<close> in \<^verbatim>\<open>upsertChat\<close> and \<^verbatim>\<open>updateChat\<close>), so the chats map
  holds references into a heap of chat objects and two maps may share an object. Messages,
  contacts and group metadata are only ever stored as fresh object literals, so they are
  held by value.
\<close>

type_synonym ref = nat

type_synonym msgmap = "(string, message) jsmap"

record backup =
  backup_chats :: "(jid, ref) jsmap"
  backup_messages :: "(jid, msgmap) jsmap"
  backup_contacts :: "(jid, contact) jsmap"
  backup_groupMetadata :: "(jid, group_meta) jsmap"

text \<open>The document \<^verbatim>\<open>serializeStoreData\<close> builds.\<close>

record snapshot =
  snap_version :: string
  snap_timestamp :: nat
  snap_chats :: "(jid \<times> chat) list"
  snap_messages :: "(jid \<times> (string \<times> message) list) list"
  snap_contacts :: "(jid \<times> contact) list"
  snap_groupMetadata :: "(jid \<times> group_meta) list"
  snap_stats :: stats

datatype error =
    TooSmall
  | InvalidStructure
  | SyntaxError
  | TypeError
  | IOError string

datatype notification =
    StoreSaved path nat
  | StoreLoaded path nat
  | StoreError error
  | ChatUpserted chat
  | ChatUpdated chat
  | MessageAdded jid message
  | GroupUpdated group_meta
  | HistoryProcessed nat nat nat

text \<open>
  What can go wrong in one call of \<^verbatim>\<open>writeToFileInternal\<close>: \<^verbatim>\<open>fs.writeFile\<close> fails
  (leaving nothing, or some partial temporary file), \<^verbatim>\<open>fs.stat\<close> fails, or \<^verbatim>\<open>fs.rename\<close>
  fails; and whether the \<^verbatim>\<open>fs.unlink\<close> of the cleanup fails.
\<close>

datatype fs_fault =
    NoFault
  | WriteFileFault "string option"
  | StatFault
  | RenameFault

record io =
  fault :: fs_fault
  unlink_fails :: bool

record store =
  config :: config
  heap :: "chat list"
  chats :: "(jid, ref) jsmap"
  messages :: "(jid, msgmap) jsmap"
  contacts :: "(jid, contact) jsmap"
  groupMetadata :: "(jid, group_meta) jsmap"
  isProcessingHistory :: bool
  syncStartTime :: "nat option"
  hasInitialData :: bool
  backupData :: backup
  writeLocks :: "(string, bool) jsmap"
  pendingWrites :: "path list"
  isWriting :: bool
  lastSuccessfulSave :: "nat option"
  stats :: stats
  emitted :: "notification list"
  scheduled :: "path list"
  files :: "(path, string) jsmap"
  io_script :: "io list"

text \<open>
  \<^verbatim>\<open>emitted\<close> logs the notifications sent with \<^verbatim>\<open>this.emit\<close>, oldest first. \<^verbatim>\<open>scheduled\<close>
  is the queue of \<^verbatim>\<open>setImmediate(() => this.writeToFile(nextFile))\<close> callbacks not yet
  run. \<^verbatim>\<open>files\<close> is the file system, a path to its content; \<^verbatim>\<open>io_script\<close> gives the
  outcome of each coming call of \<^verbatim>\<open>writeToFileInternal\<close> (none left: no fault).
\<close>

text \<open>
  What \<^verbatim>\<open>JSON.parse\<close> can make of a snapshot file, as far as \<^verbatim>\<open>validateStoreData\<close> and
  \<^verbatim>\<open>loadStoreData\<close> tell values apart. A top-level field is missing, \<^verbatim>\<open>null\<close>, a number or
  boolean (with its truthiness), an array of pairs \<^verbatim>\<open>[key, value]\<close>, or an object, given by
  its entries. The parsed value itself is such a document, or something that is not an
  object at all.
\<close>

datatype 'a jsfield = Undefined | Null | Scalar bool | Array 'a | Object 'a

record doc =
  doc_chats :: "(jid \<times> chat) list jsfield"
  doc_messages :: "(jid \<times> (string \<times> message) list) list jsfield"
  doc_contacts :: "(jid \<times> contact) list jsfield"
  doc_groupMetadata :: "(jid \<times> group_meta) list jsfield"

datatype parsed = NotAnObject | Doc doc

text \<open>
  The functions of other packages the store calls: \<^verbatim>\<open>jidNormalizedUser\<close> of the transport
  library, \<^verbatim>\<open>JSON.stringify(data, null, 2)\<close>, and \<^verbatim>\<open>JSON.parse\<close>, which throws a
  \<^verbatim>\<open>SyntaxError\<close> where \<open>parse\<close> gives \<open>None\<close>.
\<close>

record env =
  jidNormalizedUser :: "jid \<Rightarrow> jid"
  stringify :: "snapshot \<Rightarrow> string"
  parse :: "string \<Rightarrow> parsed option"

definition emit :: "notification \<Rightarrow> store \<Rightarrow> store" where
  "emit n s = s\<lparr>emitted := emitted s @ [n]\<rparr>"

subsection \<open>Eviction and message insertion\<close>

text \<open>\<^verbatim>\<open>a.messageTimestamp || 0\<close>\<close>

definition ts_or_zero :: "message \<Rightarrow> int" where
  "ts_or_zero m = (case messageTimestamp m of None \<Rightarrow> 0 | Some t \<Rightarrow> t)"

text \<open>
  The block both \<^verbatim>\<open>addMessage\<close> (lines 679 to 685) and \<^verbatim>\<open>processChatMessages\<close> (lines 513
  to 519) run on the chat's message map after writing to it. \<^verbatim>\<open>Array.prototype.sort\<close> is
  stable, as \<^const>\<open>sort_key\<close> is.
\<close>

definition applyLimit :: "nat \<Rightarrow> msgmap \<Rightarrow> msgmap" where
  "applyLimit cap ms =
     (if length ms > cap then
        let sortedMessages = sort_key (\<lambda>(k, m). ts_or_zero m) ms;
            toDelete = take (length ms - cap) sortedMessages
        in fold (\<lambda>(k, m). map_delete k) toDelete ms
      else ms)"

definition chat_messages :: "jid \<Rightarrow> store \<Rightarrow> msgmap" where
  "chat_messages j s = (case map_get j (messages s) of None \<Rightarrow> [] | Some ms \<Rightarrow> ms)"

definition addMessage :: "env \<Rightarrow> nat \<Rightarrow> jid \<Rightarrow> message \<Rightarrow> store \<Rightarrow> store" where
  "addMessage E now j msg s =
     (if fromMe msg \<and> historySyncNotification msg then s
      else
        let normalizedJid = jidNormalizedUser E j;
            s1 = (if \<not> map_has normalizedJid (messages s)
                  then s\<lparr>messages := map_set normalizedJid [] (messages s)\<rparr> else s);
            chatMessages = map_set (key_id msg)
                             (msg\<lparr>timestamp := Some now, indexed := True\<rparr>)
                             (chat_messages normalizedJid s1);
            chatMessages' = applyLimit (maxMessagesPerChat (config s1)) chatMessages;
            s2 = s1\<lparr>messages := map_set normalizedJid chatMessages' (messages s1)\<rparr>;
            s3 = s2\<lparr>stats := (stats s2)\<lparr>totalMessages := totalMessages (stats s2) + 1,
                                        operations := operations (stats s2) + 1\<rparr>\<rparr>
        in if \<not> isProcessingHistory s3
           then emit (MessageAdded normalizedJid msg) s3 else s3)"

text \<open>The loop of \<^verbatim>\<open>processChatMessages\<close>: a message whose id is present is skipped.\<close>

fun insertNew :: "nat \<Rightarrow> message list \<Rightarrow> msgmap \<times> nat \<Rightarrow> msgmap \<times> nat" where
  "insertNew now [] (existing, added) = (existing, added)"
| "insertNew now (msg # rest) (existing, added) =
     (if \<not> map_has (key_id msg) existing
      then insertNew now rest
             (map_set (key_id msg) (msg\<lparr>timestamp := Some now, indexed := True\<rparr>) existing,
              added + 1)
      else insertNew now rest (existing, added))"

definition processChatMessages :: "nat \<Rightarrow> jid \<Rightarrow> message list \<Rightarrow> store \<Rightarrow> store \<times> nat" where
  "processChatMessages now j chatMessages s =
     (let s1 = (if \<not> map_has j (messages s)
                then s\<lparr>messages := map_set j [] (messages s)\<rparr> else s);
          (existing, added) = insertNew now chatMessages (chat_messages j s1, 0);
          existing' = applyLimit (maxMessagesPerChat (config s1)) existing
      in (s1\<lparr>messages := map_set j existing' (messages s1)\<rparr>, added))"


subsection \<open>Construction\<close>

text \<open>
  The state the constructor leaves, for given options. The file system starts empty and no
  fault is scripted.
\<close>

definition init_store :: "config \<Rightarrow> store" where
  "init_store cfg =
     \<lparr>config = cfg, heap = [], chats = [], messages = [], contacts = [], groupMetadata = [],
      isProcessingHistory = False, syncStartTime = None, hasInitialData = False,
      backupData = \<lparr>backup_chats = [], backup_messages = [], backup_contacts = [],
                     backup_groupMetadata = []\<rparr>,
      writeLocks = [], pendingWrites = [], isWriting = False, lastSuccessfulSave = None,
      stats = \<lparr>totalMessages = 0, totalChats = 0, totalContacts = 0, lastSave = None,
               operations = 0\<rparr>,
      emitted = [], scheduled = [], files = [], io_script = []\<rparr>"

text \<open>
  The defaults of the constructor, a transport library whose ids are already normalised, and
  a message with nothing but a chat, an id and a timestamp: the fixtures of the concrete
  scenarios below.
\<close>

definition default_config :: config where
  "default_config =
     \<lparr>maxMessagesPerChat = 5000, storeFile = ''baileys_store.json'',
      preserveDataDuringSync = True, backupBeforeSync = True, incrementalSave = True\<rparr>"

definition plain_env :: env where
  "plain_env = \<lparr>jidNormalizedUser = (\<lambda>j. j), stringify = (\<lambda>d. ''{ snapshot 2.0 }''),
                 parse = (\<lambda>raw. None)\<rparr>"

definition plain_message :: "jid \<Rightarrow> string \<Rightarrow> int option \<Rightarrow> message" where
  "plain_message j i t =
     \<lparr>key_remoteJid = j, key_id = i, fromMe = False, historySyncNotification = False,
      messageTimestamp = t, body = [], timestamp = None, indexed = False\<rparr>"

subsection \<open>Sequences of insertions\<close>

text \<open>
  The two ways a message reaches a chat's map. \<^verbatim>\<open>processChatMessages\<close> is handed a jid
  that its caller has normalised. \<open>written\<close> is the chat's map once the insertion has
  written to it, before the limit is applied; \<open>skipped\<close> is the early return of
  \<^verbatim>\<open>addMessage\<close> on a protocol message.
\<close>

datatype insertion = AddMessage jid message | ProcessChatMessages jid "message list"

fun target :: "env \<Rightarrow> insertion \<Rightarrow> jid" where
  "target E (AddMessage j m) = jidNormalizedUser E j"
| "target E (ProcessChatMessages j ms) = j"

fun skipped :: "insertion \<Rightarrow> bool" where
  "skipped (AddMessage j m) = (fromMe m \<and> historySyncNotification m)"
| "skipped (ProcessChatMessages j ms) = False"

fun perform :: "env \<Rightarrow> nat \<Rightarrow> insertion \<Rightarrow> store \<Rightarrow> store" where
  "perform E now (AddMessage j m) s = addMessage E now j m s"
| "perform E now (ProcessChatMessages j ms) s = fst (processChatMessages now j ms s)"

fun written :: "env \<Rightarrow> nat \<Rightarrow> insertion \<Rightarrow> store \<Rightarrow> msgmap" where
  "written E now (AddMessage j m) s =
     map_set (key_id m) (m\<lparr>timestamp := Some now, indexed := True\<rparr>)
       (chat_messages (jidNormalizedUser E j) s)"
| "written E now (ProcessChatMessages j ms) s = fst (insertNew now ms (chat_messages j s, 0))"

fun run :: "env \<Rightarrow> (nat \<times> insertion) list \<Rightarrow> store \<Rightarrow> store" where
  "run E [] s = s"
| "run E ((now, i) # rest) s = run E rest (perform E now i s)"

text \<open>Every chat's message map has distinct ids, as a \<^verbatim>\<open>Map\<close> has.\<close>

definition wf_messages :: "store \<Rightarrow> bool" where
  "wf_messages s \<longleftrightarrow> (\<forall>c. distinct (map fst (chat_messages c s)))"

definition within_cap :: "store \<Rightarrow> bool" where
  "within_cap s \<longleftrightarrow> (\<forall>c. length (chat_messages c s) \<le> maxMessagesPerChat (config s))"

text \<open>
  The eviction invariant in the spec's words: of the entries \<open>ins\<close> (in insertion order),
  \<open>kept\<close> are the \<open>cap\<close> with the greatest \<^verbatim>\<open>messageTimestamp\<close>, all of them when there are
  no more than \<open>cap\<close>. They keep their order, and an entry that went is older than every
  entry that stayed, or as old and inserted before it.
\<close>

definition cap_most_recent :: "nat \<Rightarrow> msgmap \<Rightarrow> msgmap \<Rightarrow> bool" where
  "cap_most_recent cap ins kept \<longleftrightarrow>
     length kept = min cap (length ins) \<and>
     kept = filter (\<lambda>e. e \<in> set kept) ins \<and>
     (\<forall>i < length ins. \<forall>j < length ins.
        ins ! i \<notin> set kept \<and> ins ! j \<in> set kept \<longrightarrow>
          ts_or_zero (snd (ins ! i)) < ts_or_zero (snd (ins ! j)) \<or>
          (ts_or_zero (snd (ins ! i)) = ts_or_zero (snd (ins ! j)) \<and> i < j))"

subsection \<open>Chats, contacts and group metadata\<close>

text \<open>Reading a reference. The references in a map of chats always point into the heap.\<close>

definition deref :: "chat list \<Rightarrow> ref \<Rightarrow> chat option" where
  "deref h r = (if r < length h then Some (h ! r) else None)"

text \<open>The chat stored under an id, and the content of a map of chat references.\<close>

definition chat_at :: "jid \<Rightarrow> store \<Rightarrow> chat option" where
  "chat_at j s = (case map_get j (chats s) of None \<Rightarrow> None | Some r \<Rightarrow> deref (heap s) r)"

definition resolve :: "chat list \<Rightarrow> (jid, ref) jsmap \<Rightarrow> (jid \<times> chat) list" where
  "resolve h m = List.map_filter (\<lambda>(j, r). map_option (Pair j) (deref h r)) m"

text \<open>
  \<^verbatim>\<open>Object.assign(existing, src)\<close> on chat objects: every field \<open>src\<close> has is written
  over the field of \<open>existing\<close>, every other field of \<open>existing\<close> stays. The id is a field
  every chat and every update has.
\<close>

definition over :: "'a option \<Rightarrow> 'a option \<Rightarrow> 'a option" where
  "over new old = (case new of None \<Rightarrow> old | Some v \<Rightarrow> Some v)"

definition assign_chat :: "chat \<Rightarrow> chat \<Rightarrow> chat" where
  "assign_chat existing src =
     \<lparr>chat_id = chat_id src,
      unreadCount = over (unreadCount src) (unreadCount existing),
      conversationTimestamp = over (conversationTimestamp src) (conversationTimestamp existing),
      createdAt = over (createdAt src) (createdAt existing),
      lastUpdated = over (lastUpdated src) (lastUpdated existing),
      syncedAt = over (syncedAt src) (syncedAt existing),
      attrs = fold (\<lambda>(k, v). map_set k v) (attrs src) (attrs existing)\<rparr>"

definition upsertChat :: "nat \<Rightarrow> chat \<Rightarrow> store \<Rightarrow> store" where
  "upsertChat now c s =
     (let s1 =
        (case map_get (chat_id c) (chats s) of
           Some r \<Rightarrow>
             s\<lparr>heap := (heap s)[r := assign_chat (heap s ! r) (c\<lparr>lastUpdated := Some now\<rparr>)]\<rparr>
         | None \<Rightarrow>
             s\<lparr>heap := heap s @ [c\<lparr>createdAt := Some now, lastUpdated := Some now\<rparr>],
               chats := map_set (chat_id c) (length (heap s)) (chats s),
               stats := (stats s)\<lparr>totalChats := totalChats (stats s) + 1\<rparr>\<rparr>)
      in if \<not> isProcessingHistory s1 then emit (ChatUpserted c) s1 else s1)"

text \<open>
  \<^verbatim>\<open>updateChat\<close> first rewrites the \<^verbatim>\<open>unreadCount\<close> of the update it was handed
  (\<^verbatim>\<open>existing.unreadCount || 0\<close> is 0 for a missing count), then assigns.
\<close>

definition summed_update :: "chat \<Rightarrow> chat \<Rightarrow> chat" where
  "summed_update existing update =
     (case unreadCount update of
        Some n \<Rightarrow>
          (if n > 0
           then update\<lparr>unreadCount :=
                  Some ((case unreadCount existing of None \<Rightarrow> 0 | Some k \<Rightarrow> k) + n)\<rparr>
           else update)
      | None \<Rightarrow> update)"

definition updateChat :: "nat \<Rightarrow> chat \<Rightarrow> store \<Rightarrow> store" where
  "updateChat now update s =
     (case map_get (chat_id update) (chats s) of
        Some r \<Rightarrow>
          (let update' = summed_update (heap s ! r) update;
               s1 = s\<lparr>heap := (heap s)[r := assign_chat (heap s ! r)
                                              (update'\<lparr>lastUpdated := Some now\<rparr>)]\<rparr>
           in emit (ChatUpdated update') s1)
      | None \<Rightarrow> s)"

text \<open>
  The loops of \<^verbatim>\<open>processChatsOptimized\<close> and \<^verbatim>\<open>processContactsOptimized\<close> walk the input in
  slices and yield to the scheduler between two slices; the slices, taken in order, are the
  input, so the model walks the input.
\<close>

fun processChatsOptimized :: "nat \<Rightarrow> chat list \<Rightarrow> store \<Rightarrow> store" where
  "processChatsOptimized now [] s = s"
| "processChatsOptimized now (c # rest) s =
     processChatsOptimized now rest
       (if \<not> map_has (chat_id c) (chats s)
        then s\<lparr>heap := heap s @ [c\<lparr>syncedAt := Some now\<rparr>],
               chats := map_set (chat_id c) (length (heap s)) (chats s)\<rparr>
        else s)"

fun processContactsOptimized :: "env \<Rightarrow> nat \<Rightarrow> contact list \<Rightarrow> store \<Rightarrow> store" where
  "processContactsOptimized E now [] s = s"
| "processContactsOptimized E now (c # rest) s =
     processContactsOptimized E now rest
       (s\<lparr>contacts := map_set (jidNormalizedUser E (contact_id c))
                          (c\<lparr>contact_lastUpdated := Some now\<rparr>) (contacts s)\<rparr>)"

text \<open>\<^verbatim>\<open>{...(existing || {}), ...contact, lastUpdated: Date.now()}\<close>\<close>

definition merge_contact :: "contact option \<Rightarrow> contact \<Rightarrow> nat \<Rightarrow> contact" where
  "merge_contact existing c now =
     \<lparr>contact_id = contact_id c,
      contact_lastUpdated = Some now,
      contact_attrs = fold (\<lambda>(k, v). map_set k v) (contact_attrs c)
                        (case existing of None \<Rightarrow> [] | Some e \<Rightarrow> contact_attrs e)\<rparr>"

fun processContactsUpsert :: "env \<Rightarrow> nat \<Rightarrow> contact list \<Rightarrow> store \<Rightarrow> store" where
  "processContactsUpsert E now [] s = s"
| "processContactsUpsert E now (c # rest) s =
     processContactsUpsert E now rest
       (let j = jidNormalizedUser E (contact_id c);
            existing = map_get j (contacts s)
        in s\<lparr>contacts := map_set j (merge_contact existing c now) (contacts s)\<rparr>)"

definition merge_group :: "group_meta option \<Rightarrow> group_meta \<Rightarrow> nat \<Rightarrow> group_meta" where
  "merge_group existing u now =
     \<lparr>group_id = group_id u,
      group_lastUpdated = Some now,
      group_attrs = fold (\<lambda>(k, v). map_set k v) (group_attrs u)
                      (case existing of None \<Rightarrow> [] | Some e \<Rightarrow> group_attrs e)\<rparr>"

definition updateGroupMetadata :: "nat \<Rightarrow> group_meta \<Rightarrow> store \<Rightarrow> store" where
  "updateGroupMetadata now update s =
     (let existing = map_get (group_id update) (groupMetadata s);
          s1 = s\<lparr>groupMetadata := map_set (group_id update) (merge_group existing update now)
                                     (groupMetadata s)\<rparr>
      in if \<not> isProcessingHistory s1 then emit (GroupUpdated update) s1 else s1)"

subsection \<open>Validity, statistics and the backup\<close>

definition hasValidData :: "store \<Rightarrow> bool" where
  "hasValidData s = (length (chats s) > 0 \<or> length (messages s) > 0 \<or> length (contacts s) > 0)"

definition updateStats :: "store \<Rightarrow> store" where
  "updateStats s =
     s\<lparr>stats := (stats s)\<lparr>totalChats := length (chats s),
                           totalContacts := length (contacts s),
                           totalMessages := foldl (\<lambda>total chatMsgs. total + length chatMsgs) 0
                                              (map snd (messages s))\<rparr>\<rparr>"

definition hasBackupData :: "store \<Rightarrow> bool" where
  "hasBackupData s =
     (length (backup_chats (backupData s)) > 0 \<or>
      length (backup_messages (backupData s)) > 0 \<or>
      length (backup_contacts (backupData s)) > 0)"

text \<open>
  The part of \<^verbatim>\<open>createBackup\<close> that copies the maps (lines 90 to 99). \<^verbatim>\<open>new Map(this.chats)\<close>
  is a new map onto the same chat objects; the maps of messages are copied one by one.
  \<open>map_copy\<close> is \<^verbatim>\<open>new Map(entries)\<close>.
\<close>

definition map_copy :: "('k, 'v) jsmap \<Rightarrow> ('k, 'v) jsmap" where
  "map_copy m = fold (\<lambda>(k, v). map_set k v) m []"

definition copyToBackup :: "store \<Rightarrow> store" where
  "copyToBackup s =
     s\<lparr>backupData :=
         \<lparr>backup_chats = map_copy (chats s),
          backup_messages = fold (\<lambda>(j, msgs). map_set j (map_copy msgs)) (messages s) [],
          backup_contacts = map_copy (contacts s),
          backup_groupMetadata = map_copy (groupMetadata s)\<rparr>\<rparr>"

definition restoreFromBackup :: "store \<Rightarrow> store" where
  "restoreFromBackup s =
     (if \<not> preserveDataDuringSync (config s) \<or> \<not> hasBackupData s then s
      else updateStats
        (s\<lparr>chats := map_copy (backup_chats (backupData s)),
           contacts := map_copy (backup_contacts (backupData s)),
           groupMetadata := map_copy (backup_groupMetadata (backupData s)),
           messages := fold (\<lambda>(j, msgs). map_set j (map_copy msgs))
                         (backup_messages (backupData s)) []\<rparr>))"

definition clearBackup :: "store \<Rightarrow> store" where
  "clearBackup s =
     s\<lparr>backupData := \<lparr>backup_chats = [], backup_messages = [], backup_contacts = [],
                       backup_groupMetadata = []\<rparr>\<rparr>"

subsection \<open>The event binder\<close>

text \<open>
  The handlers \<^verbatim>\<open>bind\<close> registers for the events that reach the chats, contacts and group
  metadata. Each walks its payload in order.
\<close>

fun upsertChats :: "nat \<Rightarrow> chat list \<Rightarrow> store \<Rightarrow> store" where
  "upsertChats now [] s = s"
| "upsertChats now (c # rest) s = upsertChats now rest (upsertChat now c s)"

fun updateChats :: "nat \<Rightarrow> chat list \<Rightarrow> store \<Rightarrow> store" where
  "updateChats now [] s = s"
| "updateChats now (u # rest) s = updateChats now rest (updateChat now u s)"

fun updateGroups :: "nat \<Rightarrow> group_meta list \<Rightarrow> store \<Rightarrow> store" where
  "updateGroups now [] s = s"
| "updateGroups now (u # rest) s = updateGroups now rest (updateGroupMetadata now u s)"

fun deleteChats :: "jid list \<Rightarrow> store \<Rightarrow> store" where
  "deleteChats [] s = s"
| "deleteChats (chatId # rest) s =
     deleteChats rest (s\<lparr>chats := map_delete chatId (chats s),
                         messages := map_delete chatId (messages s)\<rparr>)"

definition on_chats_upsert :: "nat \<Rightarrow> chat list \<Rightarrow> store \<Rightarrow> store" where
  "on_chats_upsert now newChats s = (if isProcessingHistory s then s else upsertChats now newChats s)"

definition on_chats_update :: "nat \<Rightarrow> chat list \<Rightarrow> store \<Rightarrow> store" where
  "on_chats_update now updates s = updateChats now updates s"

definition on_chats_set :: "nat \<Rightarrow> chat list \<Rightarrow> store \<Rightarrow> store" where
  "on_chats_set now newChats s = upsertChats now newChats s"

definition on_chats_delete :: "jid list \<Rightarrow> store \<Rightarrow> store" where
  "on_chats_delete deletions s = updateStats (deleteChats deletions s)"

definition on_contacts_upsert :: "env \<Rightarrow> nat \<Rightarrow> contact list \<Rightarrow> store \<Rightarrow> store" where
  "on_contacts_upsert E now newContacts s = processContactsUpsert E now newContacts s"

definition on_groups_update :: "nat \<Rightarrow> group_meta list \<Rightarrow> store \<Rightarrow> store" where
  "on_groups_update now updates s = updateGroups now updates s"

subsection \<open>Writing the snapshot\<close>

definition serializeStoreData :: "nat \<Rightarrow> store \<Rightarrow> snapshot" where
  "serializeStoreData now s =
     \<lparr>snap_version = ''2.0'',
      snap_timestamp = now,
      snap_chats = resolve (heap s) (chats s),
      snap_messages = messages s,
      snap_contacts = contacts s,
      snap_groupMetadata = groupMetadata s,
      snap_stats = stats s\<rparr>"

text \<open>Decimal digits of a number, for the name of the temporary file.\<close>

fun show_nat :: "nat \<Rightarrow> string" where
  "show_nat n =
     (if n < 10 then [char_of (48 + n)]
      else show_nat (n div 10) @ [char_of (48 + n mod 10)])"

declare show_nat.simps [simp del]

definition next_io :: "store \<Rightarrow> io \<times> store" where
  "next_io s =
     (case io_script s of
        [] \<Rightarrow> (\<lparr>fault = NoFault, unlink_fails = False\<rparr>, s)
      | x # rest \<Rightarrow> (x, s\<lparr>io_script := rest\<rparr>))"

text \<open>
  \<^verbatim>\<open>writeToFileInternal\<close>: the error it throws, if any, and the state it leaves. A file's
  size is the length of its content. \<^verbatim>\<open>fs.rename\<close> either fails and changes nothing or
  replaces the target by the temporary file; the cleanup of the \<^verbatim>\<open>catch\<close> block removes
  the temporary file unless \<^verbatim>\<open>fs.unlink\<close> fails, which is ignored.
\<close>

definition writeToFileInternal ::
  "env \<Rightarrow> nat \<Rightarrow> path \<Rightarrow> snapshot \<Rightarrow> store \<Rightarrow> error option \<times> store" where
  "writeToFileInternal E now file data s =
     (let (outcome, s0) = next_io s;
          tempFile = file @ ''.tmp.'' @ show_nat now;
          json = stringify E data;
          staged = map_set tempFile json (files s0);
          cleanup = (\<lambda>fs. if unlink_fails outcome then fs else map_delete tempFile fs)
      in case fault outcome of
           WriteFileFault partial \<Rightarrow>
             (Some (IOError ''writeFile''),
              s0\<lparr>files := cleanup (case partial of None \<Rightarrow> files s0
                                    | Some p \<Rightarrow> map_set tempFile p (files s0))\<rparr>)
         | StatFault \<Rightarrow> (Some (IOError ''stat''), s0\<lparr>files := cleanup staged\<rparr>)
         | f \<Rightarrow>
             if length json < 10 then (Some TooSmall, s0\<lparr>files := cleanup staged\<rparr>)
             else if f = RenameFault then (Some (IOError ''rename''), s0\<lparr>files := cleanup staged\<rparr>)
             else (None, s0\<lparr>files := map_set file json (map_delete tempFile staged)\<rparr>))"

text \<open>
  \<^verbatim>\<open>createBackup\<close> catches whatever the write of the backup file throws and logs it.
\<close>

definition createBackup :: "env \<Rightarrow> nat \<Rightarrow> store \<Rightarrow> store" where
  "createBackup E now s =
     (if \<not> preserveDataDuringSync (config s) then s
      else
        let s1 = copyToBackup s
        in if backupBeforeSync (config s1)
           then snd (writeToFileInternal E now (storeFile (config s1) @ ''.backup'')
                       (serializeStoreData now s1) s1)
           else s1)"

text \<open>
  \<^verbatim>\<open>acquireWriteLock\<close> polls every 10 ms until the key is free. A call is modelled on its
  own, with no other task running in between: while the key is taken nothing frees it, and
  the call does not return, which is the value \<open>None\<close>.
\<close>

partial_function (option) acquireWriteLock :: "string \<Rightarrow> store \<Rightarrow> store option" where
  "acquireWriteLock key s =
     (if map_has key (writeLocks s) then acquireWriteLock key s
      else Some (s\<lparr>writeLocks := map_set key True (writeLocks s)\<rparr>))"

declare acquireWriteLock.simps [code]

definition releaseWriteLock :: "string \<Rightarrow> store \<Rightarrow> store" where
  "releaseWriteLock key s = s\<lparr>writeLocks := map_delete key (writeLocks s)\<rparr>"

text \<open>
  \<^verbatim>\<open>writeToFile\<close> in three parts. \<open>writeToFile_begin\<close> is what runs before the first
  \<^verbatim>\<open>await\<close>: the two early returns, or setting \<^verbatim>\<open>isWriting\<close>; its second component says
  whether a write was started. \<open>writeToFile_body\<close> is the rest of the \<^verbatim>\<open>try\<close> block with
  its \<^verbatim>\<open>catch\<close>, \<open>writeToFile_finally\<close> the \<^verbatim>\<open>finally\<close> block, which hands the first
  pending file to \<^verbatim>\<open>setImmediate\<close>.
\<close>

definition writeToFile_begin :: "path \<Rightarrow> store \<Rightarrow> store \<times> bool" where
  "writeToFile_begin file s =
     (if isWriting s then (s\<lparr>pendingWrites := set_add file (pendingWrites s)\<rparr>, False)
      else if \<not> hasValidData s then (s, False)
      else (s\<lparr>isWriting := True\<rparr>, True))"

definition writeToFile_body :: "env \<Rightarrow> nat \<Rightarrow> path \<Rightarrow> store \<Rightarrow> store option" where
  "writeToFile_body E now file s =
     do {
       s1 \<leftarrow> acquireWriteLock ''file'' s;
       (case writeToFileInternal E now file (serializeStoreData now s1) s1 of
          (None, s2) \<Rightarrow>
            Some (emit (StoreSaved file now)
                    (s2\<lparr>stats := (stats s2)\<lparr>lastSave := Some now\<rparr>,
                        lastSuccessfulSave := Some now\<rparr>))
        | (Some e, s2) \<Rightarrow> Some (emit (StoreError e) s2))
     }"

definition writeToFile_finally :: "store \<Rightarrow> store" where
  "writeToFile_finally s =
     (let s1 = releaseWriteLock ''file'' (s\<lparr>isWriting := False\<rparr>)
      in case pendingWrites s1 of
           [] \<Rightarrow> s1
         | nextFile # rest \<Rightarrow>
             s1\<lparr>pendingWrites := removeAll nextFile (pendingWrites s1),
                scheduled := scheduled s1 @ [nextFile]\<rparr>)"

definition writeToFile :: "env \<Rightarrow> nat \<Rightarrow> path \<Rightarrow> store \<Rightarrow> store option" where
  "writeToFile E now file s =
     (case writeToFile_begin file s of
        (s1, False) \<Rightarrow> Some s1
      | (s1, True) \<Rightarrow> map_option writeToFile_finally (writeToFile_body E now file s1))"

subsection \<open>Reading the snapshot\<close>

text \<open>\<^verbatim>\<open>!raw.trim()\<close>: nothing but white space.\<close>

definition blank :: "string \<Rightarrow> bool" where
  "blank raw = (\<forall>c \<in> set raw. c \<in> set [CHR 0x09, CHR 0x0A, CHR 0x0B, CHR 0x0C, CHR 0x0D, CHR 0x20])"

definition typeof_object :: "'a jsfield \<Rightarrow> bool" where
  "typeof_object f = (case f of Null \<Rightarrow> True | Array x \<Rightarrow> True | Object x \<Rightarrow> True | _ \<Rightarrow> False)"

definition isArray :: "'a jsfield \<Rightarrow> bool" where
  "isArray f = (case f of Array x \<Rightarrow> True | _ \<Rightarrow> False)"

fun validateStoreData :: "parsed \<Rightarrow> bool" where
  "validateStoreData NotAnObject = False"
| "validateStoreData (Doc d) =
     ((isArray (doc_chats d) \<or> typeof_object (doc_chats d)) \<and>
      typeof_object (doc_messages d) \<and>
      typeof_object (doc_contacts d))"

text \<open>
  \<^verbatim>\<open>loadStoreData\<close>. A chat read from the file is a new object. \<^verbatim>\<open>Object.entries\<close> of an
  array pairs each element with its index, and \<^verbatim>\<open>new Map\<close> of such an element, whose first
  item is a string, throws a \<^verbatim>\<open>TypeError\<close>; so does \<^verbatim>\<open>for ... of\<close> over a plain object or
  a number. What was loaded before the error stays loaded.
\<close>

fun loadChats :: "(jid \<times> chat) list \<Rightarrow> store \<Rightarrow> store" where
  "loadChats [] s = s"
| "loadChats ((j, c) # rest) s =
     loadChats rest (s\<lparr>heap := heap s @ [c], chats := map_set j (length (heap s)) (chats s)\<rparr>)"

definition loadStoreData :: "doc \<Rightarrow> store \<Rightarrow> error option \<times> store" where
  "loadStoreData d s =
     (let s1 = (case doc_chats d of Array xs \<Rightarrow> loadChats xs s | _ \<Rightarrow> s);
          msgs = (case doc_messages d of
                    Object es \<Rightarrow> Inr es
                  | Array [] \<Rightarrow> Inr []
                  | Array (x # xs) \<Rightarrow> Inl TypeError
                  | _ \<Rightarrow> Inr [])
      in case msgs of
           Inl e \<Rightarrow> (Some e, s1)
         | Inr es \<Rightarrow>
             (let s2 = s1\<lparr>messages := fold (\<lambda>(j, ms). map_set j (map_copy ms)) es (messages s1)\<rparr>;
                  s3 = (case doc_contacts d of
                          Array xs \<Rightarrow> s2\<lparr>contacts := fold (\<lambda>(j, c). map_set j c) xs (contacts s2)\<rparr>
                        | Object es \<Rightarrow> s2\<lparr>contacts := fold (\<lambda>(j, c). map_set j c) es (contacts s2)\<rparr>
                        | _ \<Rightarrow> s2)
              in case doc_groupMetadata d of
                   Array xs \<Rightarrow>
                     (None, updateStats
                        (s3\<lparr>groupMetadata := fold (\<lambda>(j, g). map_set j g) xs (groupMetadata s3)\<rparr>))
                 | Object es \<Rightarrow> (Some TypeError, s3)
                 | Scalar True \<Rightarrow> (Some TypeError, s3)
                 | _ \<Rightarrow> (None, updateStats s3)))"

text \<open>
  \<^verbatim>\<open>readFromFile\<close>. The lock is taken first and released by the \<^verbatim>\<open>finally\<close> block on every
  way out. The call for the backup file is made inside the \<^verbatim>\<open>try\<close> block, while the lock
  is held.
\<close>

partial_function (option) readFromFile :: "env \<Rightarrow> nat \<Rightarrow> path \<Rightarrow> store \<Rightarrow> store option" where
  "readFromFile E now file s =
     do {
       s1 \<leftarrow> acquireWriteLock ''file'' s;
       (case map_get file (files s1) of
          None \<Rightarrow> Some (releaseWriteLock ''file'' s1)
        | Some raw \<Rightarrow>
            if length raw < 10 then
              (case map_get (file @ ''.backup'') (files s1) of
                 Some b \<Rightarrow>
                   if length b > 10
                   then do {
                          s2 \<leftarrow> readFromFile E now (file @ ''.backup'') s1;
                          Some (releaseWriteLock ''file'' s2)
                        }
                   else Some (releaseWriteLock ''file'' s1)
               | None \<Rightarrow> Some (releaseWriteLock ''file'' s1))
            else if blank raw then Some (releaseWriteLock ''file'' s1)
            else
              (case parse E raw of
                 None \<Rightarrow> Some (releaseWriteLock ''file'' (emit (StoreError SyntaxError) s1))
               | Some NotAnObject \<Rightarrow>
                   Some (releaseWriteLock ''file'' (emit (StoreError InvalidStructure) s1))
               | Some (Doc d) \<Rightarrow>
                   if \<not> validateStoreData (Doc d)
                   then Some (releaseWriteLock ''file'' (emit (StoreError InvalidStructure) s1))
                   else
                     (case loadStoreData d s1 of
                        (Some e, s2) \<Rightarrow> Some (releaseWriteLock ''file'' (emit (StoreError e) s2))
                      | (None, s2) \<Rightarrow>
                          Some (releaseWriteLock ''file''
                                  (emit (StoreLoaded file (length raw))
                                     (s2\<lparr>stats := (stats s2)\<lparr>lastSave := Some now\<rparr>,
                                         hasInitialData := True\<rparr>))))))
     }"

declare readFromFile.simps [code]

subsection \<open>The history sync\<close>

record history =
  h_chats :: "chat list"
  h_contacts :: "contact list"
  h_messages :: "message list"
  isLatest :: bool
  syncType :: nat
  progress :: nat

text \<open>The grouping loop of \<^verbatim>\<open>processMessagesOptimized\<close>, then the loop over the groups.\<close>

fun groupByChat :: "env \<Rightarrow> message list \<Rightarrow> (jid, message list) jsmap \<Rightarrow> (jid, message list) jsmap" where
  "groupByChat E [] messagesByChat = messagesByChat"
| "groupByChat E (msg # rest) messagesByChat =
     (let j = jidNormalizedUser E (key_remoteJid msg);
          m1 = (if \<not> map_has j messagesByChat then map_set j [] messagesByChat else messagesByChat);
          m2 = map_set j ((case map_get j m1 of None \<Rightarrow> [] | Some l \<Rightarrow> l) @ [msg]) m1
      in groupByChat E rest m2)"

fun processGroups :: "nat \<Rightarrow> (jid \<times> message list) list \<Rightarrow> store \<Rightarrow> store" where
  "processGroups now [] s = s"
| "processGroups now ((j, chatMessages) # rest) s =
     processGroups now rest (fst (processChatMessages now j chatMessages s))"

definition processMessagesOptimized :: "env \<Rightarrow> nat \<Rightarrow> message list \<Rightarrow> store \<Rightarrow> store" where
  "processMessagesOptimized E now newMessages s = processGroups now (groupByChat E newMessages []) s"

text \<open>
  \<^verbatim>\<open>finalizeSyncProcess\<close>, run at clock reading \<open>later\<close>. Nothing it calls throws.
\<close>

definition finalizeSyncProcess :: "env \<Rightarrow> nat \<Rightarrow> store \<Rightarrow> store option" where
  "finalizeSyncProcess E later s =
     do {
       s1 \<leftarrow> (if hasValidData s then writeToFile E later (storeFile (config s)) s
              else if hasBackupData s
                   then writeToFile E later (storeFile (config s)) (restoreFromBackup s)
                   else Some s);
       Some ((clearBackup s1)\<lparr>isProcessingHistory := False, syncStartTime := None\<rparr>)
     }"

text \<open>
  Whether a batch empties the maps of chats and messages first (line 177).
\<close>

definition clearsFirst :: "history \<Rightarrow> bool" where
  "clearsFirst h = (isLatest h \<and> (length (h_chats h) > 10 \<or> length (h_messages h) > 100))"

text \<open>
  \<^verbatim>\<open>processHistorySet\<close>. \<open>now\<close> is the clock while the batch is merged, \<open>later\<close> the clock
  from the reading of the processing time on. The three merges work on different maps and
  are run one after the other. With chats, contacts and messages of the types above none
  of the steps of the \<^verbatim>\<open>try\<close> block throws, so the \<^verbatim>\<open>catch\<close> block is not entered.
\<close>

definition processHistorySet :: "env \<Rightarrow> nat \<Rightarrow> nat \<Rightarrow> history \<Rightarrow> store \<Rightarrow> store option" where
  "processHistorySet E now later h s =
     (if syncType h = 6 then Some s
      else
        let s1 = (if \<not> isProcessingHistory s
                  then let s0 = s\<lparr>isProcessingHistory := True, syncStartTime := Some now,
                                    hasInitialData := hasValidData s\<rparr>
                       in if hasInitialData s0 then createBackup E now s0 else s0
                  else s);
            s2 = (if clearsFirst h then s1\<lparr>chats := [], messages := []\<rparr> else s1);
            s3 = (if length (h_chats h) > 0 then processChatsOptimized now (h_chats h) s2 else s2);
            s4 = (if length (h_contacts h) > 0
                  then processContactsOptimized E now (h_contacts h) s3 else s3);
            s5 = (if length (h_messages h) > 0
                  then processMessagesOptimized E now (h_messages h) s4 else s4);
            s6 = updateStats s5;
            processingTime = (case syncStartTime s6 of None \<Rightarrow> later | Some t \<Rightarrow> later - t)
        in do {
             s7 \<leftarrow> (if incrementalSave (config s6) \<and> hasValidData s6 \<and> processingTime > 5000
                    then writeToFile E later (storeFile (config s6)) s6 else Some s6);
             let s8 = emit (HistoryProcessed (length (h_chats h)) (length (h_contacts h))
                              (length (h_messages h))) s7
             in if isLatest h \<or> progress h \<ge> 100 then finalizeSyncProcess E later s8
                else Some s8
           })"

subsection \<open>Overlapping write requests\<close>

text \<open>
  The tasks that call \<^verbatim>\<open>writeToFile\<close> interleave at its \<^verbatim>\<open>await\<close>s. A system state is the
  store together with the files of the writes that have set \<^verbatim>\<open>isWriting\<close> and have not yet
  run their \<^verbatim>\<open>finally\<close> block. Three things can happen: some task calls \<^verbatim>\<open>writeToFile\<close>;
  the scheduler runs the oldest \<^verbatim>\<open>setImmediate\<close> callback, which calls \<^verbatim>\<open>writeToFile\<close>; a
  write in flight runs to its end. The awaited part of a write touches neither
  \<^verbatim>\<open>isWriting\<close> nor \<^verbatim>\<open>pendingWrites\<close>, so it is run as a whole when the write ends.
\<close>

record sys =
  st :: store
  inflight :: "path list"

datatype action = Request path | RunScheduled | Complete

definition request :: "path \<Rightarrow> sys \<Rightarrow> sys" where
  "request file y =
     (case writeToFile_begin file (st y) of
        (s1, started) \<Rightarrow> \<lparr>st = s1, inflight = inflight y @ (if started then [file] else [])\<rparr>)"

fun step :: "env \<Rightarrow> nat \<Rightarrow> action \<Rightarrow> sys \<Rightarrow> sys option" where
  "step E now (Request file) y = Some (request file y)"
| "step E now RunScheduled y =
     (case scheduled (st y) of
        [] \<Rightarrow> None
      | file # rest \<Rightarrow> Some (request file (y\<lparr>st := (st y)\<lparr>scheduled := rest\<rparr>\<rparr>)))"
| "step E now Complete y =
     (case inflight y of
        [] \<Rightarrow> None
      | file # rest \<Rightarrow>
          (case writeToFile_body E now file (st y) of
             None \<Rightarrow> None
           | Some s1 \<Rightarrow> Some \<lparr>st = writeToFile_finally s1, inflight = rest\<rparr>))"

fun exec :: "env \<Rightarrow> (nat \<times> action) list \<Rightarrow> sys \<Rightarrow> sys option" where
  "exec E [] y = Some y"
| "exec E ((now, a) # rest) y =
     (case step E now a y of None \<Rightarrow> None | Some y1 \<Rightarrow> exec E rest y1)"

definition one_writer :: "sys \<Rightarrow> bool" where
  "one_writer y \<longleftrightarrow>
     length (inflight y) \<le> 1 \<and> (isWriting (st y) \<longleftrightarrow> inflight y \<noteq> []) \<and>
     distinct (pendingWrites (st y))"

subsection \<open>Fixtures and observations for the properties\<close>

text \<open>A chat with an id and an unread count and no other field.\<close>

definition plain_chat :: "jid \<Rightarrow> int option \<Rightarrow> chat" where
  "plain_chat j n =
     \<lparr>chat_id = j, unreadCount = n, conversationTimestamp = None, createdAt = None,
      lastUpdated = None, syncedAt = None, attrs = []\<rparr>"


text \<open>The contact, or the group, stored under an id has been written at clock reading \<open>now\<close>.\<close>

definition contact_touched :: "nat \<Rightarrow> jid \<Rightarrow> store \<Rightarrow> bool" where
  "contact_touched now j s \<longleftrightarrow>
     map_option contact_lastUpdated (map_get j (contacts s)) = Some (Some now)"

definition group_touched :: "nat \<Rightarrow> jid \<Rightarrow> store \<Rightarrow> bool" where
  "group_touched now j s \<longleftrightarrow>
     map_option group_lastUpdated (map_get j (groupMetadata s)) = Some (Some now)"

text \<open>
  A store that holds a chat and a message of it, and two batches marked latest: one with 2
  chats and 5 messages, one with 20 chats.
\<close>

definition seeded_store :: store where
  "seeded_store =
     addMessage plain_env 2 ''old'' (plain_message ''old'' ''m0'' (Some 1))
       (upsertChat 1 (plain_chat ''old'' None) (init_store default_config))"

definition small_latest :: history where
  "small_latest =
     \<lparr>h_chats = [plain_chat ''c1'' None, plain_chat ''c2'' None],
      h_contacts = [],
      h_messages = map (\<lambda>n. plain_message ''c1'' (show_nat n) (Some (int n))) [1 ..< 6],
      isLatest = True, syncType = 0, progress = 0\<rparr>"

definition large_latest :: history where
  "large_latest =
     \<lparr>h_chats = map (\<lambda>n. plain_chat (show_nat n) None) [1 ..< 21],
      h_contacts = [], h_messages = [],
      isLatest = True, syncType = 0, progress = 0\<rparr>"

section \<open>Properties\<close>

subsection \<open>Eviction\<close>

lemma fold_map_delete:
  "fold (\<lambda>(k, m). map_delete k) D ms = filter (\<lambda>e. fst e \<notin> fst ` set D) ms"
proof (induction D arbitrary: ms)
  case Nil show ?case by simp
next
  case (Cons d D)
  obtain k v where d: "d = (k, v)" by (cases d)
  have "fold (\<lambda>(k, m). map_delete k) (d # D) ms
        = filter (\<lambda>e. fst e \<notin> fst ` set D) (map_delete k ms)"
    using Cons.IH by (simp add: d)
  also have "\<dots> = filter (\<lambda>e. fst e \<notin> fst ` set (d # D)) ms"
    by (induction ms) (auto simp: map_delete_def AList.delete_eq d)
  finally show ?case .
qed

lemma applyLimit_filter:
  "applyLimit cap ms =
     filter (\<lambda>e. fst e \<notin> fst ` set (take (length ms - cap) (sort_key (\<lambda>(k, m). ts_or_zero m) ms))) ms"
  by (auto simp: applyLimit_def Let_def fold_map_delete)

lemma distinct_keys_mem_iff:
  assumes "distinct (map fst ms)" "e \<in> set ms" "set D \<subseteq> set ms"
  shows "fst e \<in> fst ` set D \<longleftrightarrow> e \<in> set D"
proof
  assume "fst e \<in> fst ` set D"
  then obtain d where d: "d \<in> set D" "fst d = fst e" by auto
  with assms have "d \<in> set ms" by auto
  with assms d have "d = e" by (metis eq_key_imp_eq_value prod.collapse)
  with d show "e \<in> set D" by simp
qed auto

lemma applyLimit_set:
  assumes "distinct (map fst ms)"
  shows "set (applyLimit cap ms) = set (drop (length ms - cap) (sort_key (\<lambda>(k, m). ts_or_zero m) ms))"
proof -
  let ?S = "sort_key (\<lambda>(k, m). ts_or_zero m) ms"
  let ?d = "length ms - cap"
  have dist: "distinct ?S" using assms by (simp add: distinct_map)
  have split: "set ms = set (take ?d ?S) \<union> set (drop ?d ?S)"
    by (metis append_take_drop_id set_append set_sort)
  have disj: "set (take ?d ?S) \<inter> set (drop ?d ?S) = {}"
    using dist by (metis append_take_drop_id distinct_append)
  have sub: "set (take ?d ?S) \<subseteq> set ms" using split by auto
  have "set (applyLimit cap ms) = {e \<in> set ms. e \<notin> set (take ?d ?S)}"
    unfolding applyLimit_filter using distinct_keys_mem_iff[OF assms _ sub] by auto
  with split disj show ?thesis by auto
qed

lemma applyLimit_distinct:
  "distinct (map fst ms) \<Longrightarrow> distinct (map fst (applyLimit cap ms))"
  unfolding applyLimit_filter by (simp add: distinct_map_filter)

lemma applyLimit_length:
  assumes "distinct (map fst ms)"
  shows "length (applyLimit cap ms) = min cap (length ms)"
proof -
  let ?S = "sort_key (\<lambda>(k, m). ts_or_zero m) ms"
  have d1: "distinct (applyLimit cap ms)"
    using applyLimit_distinct[OF assms] by (simp add: distinct_map)
  have d2: "distinct (drop (length ms - cap) ?S)"
    using assms by (simp add: distinct_map)
  have "length (applyLimit cap ms) = card (set (applyLimit cap ms))"
    using d1 by (simp add: distinct_card)
  also have "\<dots> = card (set (drop (length ms - cap) ?S))"
    by (simp add: applyLimit_set[OF assms])
  also have "\<dots> = length (drop (length ms - cap) ?S)"
    using d2 by (simp add: distinct_card)
  finally show ?thesis by auto
qed

lemma applyLimit_oldest:
  assumes "distinct (map fst ms)"
    and "e \<in> set ms" "e \<notin> set (applyLimit cap ms)" "r \<in> set (applyLimit cap ms)"
  shows "ts_or_zero (snd e) \<le> ts_or_zero (snd r)"
proof -
  let ?f = "\<lambda>(k, m). ts_or_zero m"
  let ?S = "sort_key ?f ms"
  let ?d = "length ms - cap"
  have r: "r \<in> set (drop ?d ?S)" using assms by (simp add: applyLimit_set)
  have "e \<in> set ?S" using assms by simp
  then have "e \<in> set (take ?d ?S) \<or> e \<in> set (drop ?d ?S)"
    by (metis Un_iff append_take_drop_id set_append)
  with assms have e: "e \<in> set (take ?d ?S)" by (simp add: applyLimit_set)
  have "sorted (map ?f (take ?d ?S @ drop ?d ?S))" by simp
  then have "\<forall>x\<in>set (take ?d ?S). \<forall>y\<in>set (drop ?d ?S). ?f x \<le> ?f y"
    unfolding map_append sorted_append by auto
  with e r have "?f e \<le> ?f r" by blast
  then show ?thesis by (simp add: case_prod_beta)
qed

lemma split_order:
  assumes "distinct xs" "xs = A @ e # B" "xs = C @ D" "e \<in> set C" "r \<in> set D"
  shows "r \<notin> set A"
proof
  assume rA: "r \<in> set A"
  from \<open>e \<in> set C\<close> obtain n where n: "n < length C" "C ! n = e"
    by (auto simp: in_set_conv_nth)
  have "xs ! n = e" using n assms(3) by (simp add: nth_append)
  moreover have "xs ! length A = e" using assms(2) by simp
  moreover have "n < length xs" using n assms(3) by simp
  moreover have "length A < length xs" using assms(2) by simp
  ultimately have "n = length A" using assms(1) by (metis nth_eq_iff_index_eq)
  then have "length A < length C" using n by simp
  then have "A = take (length A) C"
    using assms(2,3) by (metis append_eq_append_conv_if append_eq_conv_conj less_imp_le_nat)
  then have "set A \<subseteq> set C" by (metis set_take_subset)
  with rA have "r \<in> set C" by auto
  with assms(1,3,5) show False by auto
qed

lemma applyLimit_ties:
  assumes dist: "distinct (map fst ms)"
    and i: "i < length ms" and j: "j < length ms"
    and ev: "ms ! i \<notin> set (applyLimit cap ms)"
    and re: "ms ! j \<in> set (applyLimit cap ms)"
    and tie: "ts_or_zero (snd (ms ! i)) = ts_or_zero (snd (ms ! j))"
  shows "i < j"
proof (rule ccontr)
  assume "\<not> i < j"
  let ?f = "\<lambda>(k, m). ts_or_zero m"
  let ?S = "sort_key ?f ms"
  let ?d = "length ms - cap"
  let ?k = "?f (ms ! i)"
  let ?F = "filter (\<lambda>y. ?f y = ?k)"
  have dms: "distinct ms" using dist by (simp add: distinct_map)
  have "i \<noteq> j" using ev re by auto
  with \<open>\<not> i < j\<close> have ji: "j < i" by simp
  have r: "ms ! j \<in> set (drop ?d ?S)" using re dist by (simp add: applyLimit_set)
  have "ms ! i \<in> set ?S" using i by simp
  then have "ms ! i \<in> set (take ?d ?S) \<or> ms ! i \<in> set (drop ?d ?S)"
    by (metis Un_iff append_take_drop_id set_append)
  with ev dist have e: "ms ! i \<in> set (take ?d ?S)" by (simp add: applyLimit_set)
  have fk: "?f (ms ! j) = ?k" using tie by (simp add: case_prod_beta)
  have "?F ms = ?F ?S" by (rule sort_key_stable[symmetric])
  also have "\<dots> = ?F (take ?d ?S) @ ?F (drop ?d ?S)"
    by (metis append_take_drop_id filter_append)
  finally have CD: "?F ms = ?F (take ?d ?S) @ ?F (drop ?d ?S)" .
  have "ms = take i ms @ ms ! i # drop (Suc i) ms"
    using i by (simp add: id_take_nth_drop)
  then have "?F ms = ?F (take i ms @ ms ! i # drop (Suc i) ms)" by simp
  then have AB: "?F ms = ?F (take i ms) @ ms ! i # ?F (drop (Suc i) ms)" by simp
  have "ms ! j \<in> set (take i ms)" using ji i by (auto simp: in_set_conv_nth intro!: exI[of _ j])
  then have rA: "ms ! j \<in> set (?F (take i ms))" using fk by simp
  have "ms ! j \<notin> set (?F (take i ms))"
  proof (rule split_order[OF _ AB CD])
    show "distinct (?F ms)" using dms by simp
    show "ms ! i \<in> set (?F (take ?d ?S))" using e by simp
    show "ms ! j \<in> set (?F (drop ?d ?S))" using r fk by simp
  qed
  with rA show False by simp
qed

lemma applyLimit_most_recent:
  assumes "distinct (map fst ms)"
  shows "cap_most_recent cap ms (applyLimit cap ms)"
proof -
  let ?D = "take (length ms - cap) (sort_key (\<lambda>(k, m). ts_or_zero m) ms)"
  have sub: "set ?D \<subseteq> set ms" by (metis set_sort set_take_subset)
  have "filter P ms = filter (\<lambda>e. e \<in> set (filter P ms)) ms" for P :: "string \<times> message \<Rightarrow> bool"
    by (rule filter_cong) auto
  then have "applyLimit cap ms = filter (\<lambda>e. e \<in> set (applyLimit cap ms)) ms"
    unfolding applyLimit_filter .
  moreover have "ts_or_zero (snd (ms ! i)) < ts_or_zero (snd (ms ! j)) \<or>
          (ts_or_zero (snd (ms ! i)) = ts_or_zero (snd (ms ! j)) \<and> i < j)"
    if "i < length ms" "j < length ms" "ms ! i \<notin> set (applyLimit cap ms)"
       "ms ! j \<in> set (applyLimit cap ms)" for i j
  proof -
    have "ts_or_zero (snd (ms ! i)) \<le> ts_or_zero (snd (ms ! j))"
      using applyLimit_oldest[OF assms _ that(3,4)] that(1) by simp
    moreover have "i < j" if "ts_or_zero (snd (ms ! i)) = ts_or_zero (snd (ms ! j))"
      using applyLimit_ties[OF assms \<open>i < length ms\<close> \<open>j < length ms\<close>
          \<open>ms ! i \<notin> set (applyLimit cap ms)\<close> \<open>ms ! j \<in> set (applyLimit cap ms)\<close> that] .
    ultimately show ?thesis by linarith
  qed
  ultimately show ?thesis
    unfolding cap_most_recent_def using applyLimit_length[OF assms] by blast
qed

lemma distinct_map_set: "distinct (map fst m) \<Longrightarrow> distinct (map fst (map_set k v m))"
  by (simp add: map_set_def distinct_update)

lemma distinct_insertNew:
  "distinct (map fst ex) \<Longrightarrow> distinct (map fst (fst (insertNew now ms (ex, n))))"
  by (induction ms arbitrary: ex n) (auto simp: distinct_map_set)

lemma chat_messages_addMessage:
  "\<not> (fromMe m \<and> historySyncNotification m) \<Longrightarrow>
   chat_messages c (addMessage E now j m s) =
     (if c = jidNormalizedUser E j
      then applyLimit (maxMessagesPerChat (config s))
             (map_set (key_id m) (m\<lparr>timestamp := Some now, indexed := True\<rparr>)
                (chat_messages (jidNormalizedUser E j) s))
      else chat_messages c s)"
  by (auto simp: addMessage_def Let_def chat_messages_def map_get_def map_set_def map_has_def
      emit_def update_conv')

lemma chat_messages_processChatMessages:
  "chat_messages c (fst (processChatMessages now j ms s)) =
     (if c = j
      then applyLimit (maxMessagesPerChat (config s)) (fst (insertNew now ms (chat_messages j s, 0)))
      else chat_messages c s)"
  by (simp add: processChatMessages_def Let_def chat_messages_def map_get_def map_set_def
      map_has_def update_conv' split: prod.splits)

lemma config_addMessage: "config (addMessage E now j m s) = config s"
  by (simp add: addMessage_def Let_def emit_def)

lemma config_processChatMessages: "config (fst (processChatMessages now j ms s)) = config s"
  by (simp add: processChatMessages_def Let_def split: prod.splits)

lemma config_perform: "config (perform E now i s) = config s"
  by (cases i) (simp_all add: config_addMessage config_processChatMessages)

lemma chat_messages_perform:
  "chat_messages c (perform E now i s) =
     (if c = target E i \<and> \<not> skipped i
      then applyLimit (maxMessagesPerChat (config s)) (written E now i s)
      else chat_messages c s)"
proof (cases i)
  case (AddMessage j m)
  show ?thesis
  proof (cases "fromMe m \<and> historySyncNotification m")
    case True
    then show ?thesis using AddMessage by (simp add: addMessage_def)
  next
    case False
    then show ?thesis using AddMessage chat_messages_addMessage[OF False] by simp
  qed
next
  case (ProcessChatMessages j ms)
  then show ?thesis by (simp add: chat_messages_processChatMessages)
qed

lemma distinct_written:
  "distinct (map fst (chat_messages (target E i) s)) \<Longrightarrow> distinct (map fst (written E now i s))"
  by (cases i) (simp_all add: distinct_map_set distinct_insertNew)

lemma wf_perform: "wf_messages s \<Longrightarrow> wf_messages (perform E now i s)"
  unfolding wf_messages_def
  by (auto simp: chat_messages_perform intro!: applyLimit_distinct distinct_written)

lemma within_cap_perform:
  assumes "wf_messages s" "within_cap s"
  shows "within_cap (perform E now i s)"
proof -
  have "length (applyLimit (maxMessagesPerChat (config s)) (written E now i s))
          \<le> maxMessagesPerChat (config s)"
    using applyLimit_length[OF distinct_written, of E i s] assms(1)
    by (simp add: wf_messages_def)
  then show ?thesis using assms(2)
    by (auto simp: within_cap_def chat_messages_perform config_perform)
qed

lemma within_cap_run:
  "wf_messages s \<Longrightarrow> within_cap s \<Longrightarrow> wf_messages (run E ops s) \<and> within_cap (run E ops s)"
proof (induction ops arbitrary: s)
  case Nil then show ?case by simp
next
  case (Cons a ops)
  obtain now i where a: "a = (now, i)" by (cases a)
  show ?case using Cons.IH[of "perform E now i s"] Cons.prems
    by (simp add: a wf_perform within_cap_perform)
qed

lemma wf_init: "wf_messages (init_store cfg)"
  by (simp add: wf_messages_def init_store_def chat_messages_def map_get_def)


text \<open>
  C1. Whatever the store holds, an insertion through \<^verbatim>\<open>addMessage\<close> or
  \<^verbatim>\<open>processChatMessages\<close> that is not skipped leaves the chat with at most
  \<^verbatim>\<open>maxMessagesPerChat\<close> messages, and these are the most recent by \<^verbatim>\<open>messageTimestamp\<close>
  (missing read as 0) of what the chat held once the insertion had written to it, ties
  going to the entries inserted later. So a store within the cap stays within it over any
  sequence of insertions. With a cap of 3, inserting timestamps 1, 2, 3, 4 into chat A
  leaves 2, 3, 4.
\<close>

theorem eviction_invariant:
  assumes "wf_messages s"
  shows "(\<not> skipped i \<longrightarrow>
            length (chat_messages (target E i) (perform E now i s)) \<le> maxMessagesPerChat (config s) \<and>
            cap_most_recent (maxMessagesPerChat (config s)) (written E now i s)
              (chat_messages (target E i) (perform E now i s)))
       \<and> (within_cap s \<longrightarrow> within_cap (run E ops s))
       \<and> map (\<lambda>(k, m). (k, messageTimestamp m))
            (chat_messages ''A''
              (run plain_env
                 [(10, AddMessage ''A'' (plain_message ''A'' ''m1'' (Some 1))),
                  (11, AddMessage ''A'' (plain_message ''A'' ''m2'' (Some 2))),
                  (12, AddMessage ''A'' (plain_message ''A'' ''m3'' (Some 3))),
                  (13, AddMessage ''A'' (plain_message ''A'' ''m4'' (Some 4)))]
                 (init_store (default_config\<lparr>maxMessagesPerChat := 3\<rparr>))))
          = [(''m2'', Some 2), (''m3'', Some 3), (''m4'', Some 4)]"
proof (intro conjI impI)
  have d: "distinct (map fst (written E now i s))"
    using assms by (simp add: wf_messages_def distinct_written)
  assume "\<not> skipped i"
  then have eq: "chat_messages (target E i) (perform E now i s)
              = applyLimit (maxMessagesPerChat (config s)) (written E now i s)"
    by (simp add: chat_messages_perform)
  show "length (chat_messages (target E i) (perform E now i s)) \<le> maxMessagesPerChat (config s)"
    unfolding eq using applyLimit_length[OF d] by simp
  show "cap_most_recent (maxMessagesPerChat (config s)) (written E now i s)
          (chat_messages (target E i) (perform E now i s))"
    unfolding eq by (rule applyLimit_most_recent[OF d])
next
  assume "within_cap s"
  with assms show "within_cap (run E ops s)" using within_cap_run by blast
next
  show "map (\<lambda>(k, m). (k, messageTimestamp m))
            (chat_messages ''A''
              (run plain_env
                 [(10, AddMessage ''A'' (plain_message ''A'' ''m1'' (Some 1))),
                  (11, AddMessage ''A'' (plain_message ''A'' ''m2'' (Some 2))),
                  (12, AddMessage ''A'' (plain_message ''A'' ''m3'' (Some 3))),
                  (13, AddMessage ''A'' (plain_message ''A'' ''m4'' (Some 4)))]
                 (init_store (default_config\<lparr>maxMessagesPerChat := 3\<rparr>))))
          = [(''m2'', Some 2), (''m3'', Some 3), (''m4'', Some 4)]"
    by code_simp
qed


theorem eviction_invariant_witness:
  "(let s = run plain_env [(10, AddMessage ''A'' (plain_message ''A'' ''m1'' (Some 5)))]
              (init_store (default_config\<lparr>maxMessagesPerChat := 1\<rparr>));
        i = AddMessage ''A'' (plain_message ''A'' ''m2'' (Some 7));
        ins = written plain_env 11 i s;
        kept = chat_messages ''A'' (perform plain_env 11 i s)
    in wf_messages s \<and> \<not> skipped i \<and> within_cap s
       \<and> map fst ins = [''m1'', ''m2''] \<and> map fst kept = [''m2'']
       \<and> cap_most_recent 1 ins kept
       \<and> within_cap (run plain_env [(11, i)] s))"
proof -
  define s where "s = run plain_env [(10, AddMessage ''A'' (plain_message ''A'' ''m1'' (Some 5)))]
              (init_store (default_config\<lparr>maxMessagesPerChat := 1\<rparr>))"
  define i where "i = AddMessage ''A'' (plain_message ''A'' ''m2'' (Some 7))"
  have wf: "wf_messages s"
    unfolding s_def by (simp add: wf_perform wf_init del: perform.simps)
  have cap: "maxMessagesPerChat (config s) = 1"
    unfolding s_def by (simp add: config_perform init_store_def default_config_def del: perform.simps)
  have wc: "within_cap s"
    unfolding s_def using within_cap_perform[OF wf_init, of "default_config\<lparr>maxMessagesPerChat := 1\<rparr>"]
    by (simp add: within_cap_def init_store_def chat_messages_def map_get_def del: perform.simps)
  have sk: "\<not> skipped i" by (simp add: i_def plain_message_def)
  have tg: "target plain_env i = ''A''" by (simp add: i_def plain_env_def)
  have ins: "map fst (written plain_env 11 i s) = [''m1'', ''m2'']"
    unfolding s_def i_def by code_simp
  have kept: "map fst (chat_messages ''A'' (perform plain_env 11 i s)) = [''m2'']"
    unfolding s_def i_def by code_simp
  from eviction_invariant[OF wf, of i plain_env 11 "[(11, i)]"] sk wc
  show ?thesis
    unfolding s_def[symmetric] i_def[symmetric] Let_def
    using wf ins kept by (simp add: cap tg)
qed

subsection \<open>Ingesting a message twice\<close>

text \<open>
  C2. Ingesting the same message twice with \<^verbatim>\<open>addMessage\<close> leaves one entry under its id,
  but \<^verbatim>\<open>stats.totalMessages\<close> is incremented on each call: it is 1 after the first
  ingestion and 2 after the second.
\<close>

theorem duplicate_ingestion_counts_twice:
  "(let m = plain_message ''A'' ''m1'' (Some 1);
        s1 = addMessage plain_env 10 ''A'' m (init_store default_config);
        s2 = addMessage plain_env 11 ''A'' m s1
    in map fst (chat_messages ''A'' s1) = [''m1'']
     \<and> map fst (chat_messages ''A'' s2) = [''m1'']
     \<and> totalMessages (stats s1) = 1
     \<and> totalMessages (stats s2) = 2)"
  by code_simp

subsection \<open>Merging an update into a chat\<close>

lemma map_of_fold_set_notin:
  "k \<notin> fst ` set src \<Longrightarrow> map_of (fold (\<lambda>(k, v). map_set k v) src ex) k = map_of ex k"
  by (induction src arbitrary: ex) (auto simp: map_set_def update_conv')

lemma map_of_fold_set_in:
  "distinct (map fst src) \<Longrightarrow> (k, v) \<in> set src \<Longrightarrow>
   map_of (fold (\<lambda>(k, v). map_set k v) src ex) k = Some v"
proof (induction src arbitrary: ex)
  case Nil then show ?case by simp
next
  case (Cons a src)
  obtain k' v' where a: "a = (k', v')" by (cases a)
  show ?case
  proof (cases "(k, v) = a")
    case True
    then have "k \<notin> fst ` set src" using Cons.prems(1) a by auto
    then have "map_of (fold (\<lambda>(k, v). map_set k v) src (map_set k' v' ex)) k
                 = map_of (map_set k' v' ex) k"
      by (rule map_of_fold_set_notin)
    also have "\<dots> = Some v" using True a by (simp add: map_set_def update_conv')
    finally show ?thesis by (simp add: a)
  next
    case False
    then have "(k, v) \<in> set src" using Cons.prems(2) by simp
    then show ?thesis using Cons.IH[of "map_set k' v' ex"] Cons.prems(1) a by simp
  qed
qed


text \<open>
  C7, as amended. When \<^verbatim>\<open>updateChat\<close> is called for a chat the store holds: a positive
  \<^verbatim>\<open>unreadCount\<close> of the update is added to the stored one (0 if missing); every other
  field the update names replaces the stored one; every field it does not name keeps its
  stored value, except \<^verbatim>\<open>lastUpdated\<close>, which becomes the current time.
\<close>

theorem updateChat_merge:
  assumes "map_get (chat_id u) (chats s) = Some r" and "r < length (heap s)"
  shows "\<exists>c'. chat_at (chat_id u) (updateChat now u s) = Some c' \<and>
           chat_id c' = chat_id u \<and>
           unreadCount c' =
             (case unreadCount u of
                None \<Rightarrow> unreadCount (heap s ! r)
              | Some n \<Rightarrow>
                  if n > 0
                  then Some ((case unreadCount (heap s ! r) of None \<Rightarrow> 0 | Some k \<Rightarrow> k) + n)
                  else Some n) \<and>
           conversationTimestamp c' =
             (case conversationTimestamp u of None \<Rightarrow> conversationTimestamp (heap s ! r)
              | Some t \<Rightarrow> Some t) \<and>
           createdAt c' = (case createdAt u of None \<Rightarrow> createdAt (heap s ! r) | Some t \<Rightarrow> Some t) \<and>
           syncedAt c' = (case syncedAt u of None \<Rightarrow> syncedAt (heap s ! r) | Some t \<Rightarrow> Some t) \<and>
           lastUpdated c' = Some now \<and>
           (\<forall>k. k \<notin> fst ` set (attrs u) \<longrightarrow> map_of (attrs c') k = map_of (attrs (heap s ! r)) k) \<and>
           (distinct (map fst (attrs u)) \<longrightarrow>
              (\<forall>(k, v) \<in> set (attrs u). map_of (attrs c') k = Some v))"
proof -
  let ?ex = "heap s ! r"
  let ?c = "assign_chat ?ex ((summed_update ?ex u)\<lparr>lastUpdated := Some now\<rparr>)"
  have at: "chat_at (chat_id u) (updateChat now u s) = Some ?c"
    using assms by (simp add: updateChat_def chat_at_def Let_def emit_def deref_def)
  have su: "chat_id (summed_update ?ex u) = chat_id u"
      "attrs (summed_update ?ex u) = attrs u"
      "conversationTimestamp (summed_update ?ex u) = conversationTimestamp u"
      "createdAt (summed_update ?ex u) = createdAt u"
      "syncedAt (summed_update ?ex u) = syncedAt u"
    by (simp_all add: summed_update_def split: option.splits)
  have uc: "unreadCount ?c =
             (case unreadCount u of
                None \<Rightarrow> unreadCount ?ex
              | Some n \<Rightarrow>
                  if n > 0
                  then Some ((case unreadCount ?ex of None \<Rightarrow> 0 | Some k \<Rightarrow> k) + n)
                  else Some n)"
    by (simp add: assign_chat_def summed_update_def over_def split: option.splits)
  have a1: "\<forall>k. k \<notin> fst ` set (attrs u) \<longrightarrow> map_of (attrs ?c) k = map_of (attrs ?ex) k"
    by (simp add: assign_chat_def su map_of_fold_set_notin)
  have a2: "distinct (map fst (attrs u)) \<longrightarrow> (\<forall>(k, v) \<in> set (attrs u). map_of (attrs ?c) k = Some v)"
    by (auto simp: assign_chat_def su map_of_fold_set_in)
  have rest: "chat_id ?c = chat_id u" "lastUpdated ?c = Some now"
    "conversationTimestamp ?c =
             (case conversationTimestamp u of None \<Rightarrow> conversationTimestamp ?ex
              | Some t \<Rightarrow> Some t)"
    "createdAt ?c = (case createdAt u of None \<Rightarrow> createdAt ?ex | Some t \<Rightarrow> Some t)"
    "syncedAt ?c = (case syncedAt u of None \<Rightarrow> syncedAt ?ex | Some t \<Rightarrow> Some t)"
    by (simp_all add: assign_chat_def su over_def)
  show ?thesis
    using at uc a1 a2 rest by blast
qed

theorem updateChat_merge_witness:
  "(let s = upsertChat 1 ((plain_chat ''A'' (Some 2))\<lparr>attrs := [(''name'', ''Ann'')]\<rparr>)
              (init_store default_config);
        u = (plain_chat ''A'' (Some 3))\<lparr>attrs := [(''pinned'', ''yes'')]\<rparr>
    in map_get (chat_id u) (chats s) = Some 0 \<and> 0 < length (heap s) \<and>
       distinct (map fst (attrs u)) \<and>
       (\<exists>c'. chat_at ''A'' (updateChat 9 u s) = Some c' \<and> unreadCount c' = Some 5 \<and>
              lastUpdated c' = Some 9 \<and> map_of (attrs c') ''name'' = Some ''Ann'' \<and>
              map_of (attrs c') ''pinned'' = Some ''yes''))"
proof -
  define s where "s = upsertChat 1 ((plain_chat ''A'' (Some 2))\<lparr>attrs := [(''name'', ''Ann'')]\<rparr>)
              (init_store default_config)"
  define u where "u = (plain_chat ''A'' (Some 3))\<lparr>attrs := [(''pinned'', ''yes'')]\<rparr>"
  have g: "map_get (chat_id u) (chats s) = Some 0" unfolding s_def u_def by code_simp
  have l: "0 < length (heap s)" unfolding s_def by code_simp
  have d: "distinct (map fst (attrs u))" unfolding u_def by code_simp
  have id: "chat_id u = ''A''" unfolding u_def by code_simp
  have ex: "unreadCount (heap s ! 0) = Some 2" "map_of (attrs (heap s ! 0)) ''name'' = Some ''Ann''"
    unfolding s_def by code_simp+
  have uu: "unreadCount u = Some 3" "attrs u = [(''pinned'', ''yes'')]"
    unfolding u_def by code_simp+
  from updateChat_merge[OF g l, of 9] obtain c' where
    c: "chat_at (chat_id u) (updateChat 9 u s) = Some c'"
       "unreadCount c' = (case unreadCount u of None \<Rightarrow> unreadCount (heap s ! 0)
              | Some n \<Rightarrow> if n > 0
                  then Some ((case unreadCount (heap s ! 0) of None \<Rightarrow> 0 | Some k \<Rightarrow> k) + n)
                  else Some n)"
       "lastUpdated c' = Some 9"
       "\<forall>k. k \<notin> fst ` set (attrs u) \<longrightarrow> map_of (attrs c') k = map_of (attrs (heap s ! 0)) k"
       "distinct (map fst (attrs u)) \<longrightarrow> (\<forall>(k, v) \<in> set (attrs u). map_of (attrs c') k = Some v)"
    by blast
  have "unreadCount c' = Some 5" using c(2) ex uu by simp
  moreover have "map_of (attrs c') ''name'' = Some ''Ann''" using c(4) ex uu by simp
  moreover have "map_of (attrs c') ''pinned'' = Some ''yes''" using c(5) d uu by simp
  ultimately show ?thesis
    unfolding s_def[symmetric] u_def[symmetric] Let_def using g l d c(1,3) id by simp
qed


text \<open>
  C7 as stated fails for the field \<^verbatim>\<open>lastUpdated\<close>: the update below does not name it, and
  the stored value changes from 1 to 5.
\<close>

theorem updateChat_touches_lastUpdated:
  "(let s = upsertChat 1 (plain_chat ''A'' (Some 0)) (init_store default_config);
        u = plain_chat ''A'' (Some 2)
    in lastUpdated u = None
     \<and> map_option lastUpdated (chat_at ''A'' s) = Some (Some 1)
     \<and> map_option lastUpdated (chat_at ''A'' (updateChat 5 u s)) = Some (Some 5))"
  by code_simp


subsection \<open>Backup and restore\<close>

text \<open>
  C3. A store holds chat A with unread count 0. \<^verbatim>\<open>createBackup\<close> runs, then
  \<^verbatim>\<open>updateChat\<close> adds 4 unread messages to A, then \<^verbatim>\<open>restoreFromBackup\<close> runs. The
  backup's map of chats points to the chat object that \<^verbatim>\<open>updateChat\<close> has changed in
  place: the backup's own content has changed from 0 to 4, and so the restored store shows
  4, not the 0 of the state that was backed up.
\<close>

theorem backup_shares_chat_objects:
  "(let s = upsertChat 1 (plain_chat ''A'' (Some 0)) (init_store default_config);
        b = createBackup plain_env 2 s;
        m = updateChat 3 (plain_chat ''A'' (Some 4)) b;
        r = restoreFromBackup m
    in hasValidData s
     \<and> map_option unreadCount (chat_at ''A'' s) = Some (Some 0)
     \<and> map_option unreadCount (map_of (resolve (heap b) (backup_chats (backupData b))) ''A'') = Some (Some 0)
     \<and> map_option unreadCount (map_of (resolve (heap m) (backup_chats (backupData m))) ''A'') = Some (Some 4)
     \<and> map_option unreadCount (chat_at ''A'' r) = Some (Some 4))"
  by code_simp


theorem backup_shares_chat_objects_witness:
  "(let s = upsertChat 1 (plain_chat ''A'' (Some 0)) (init_store default_config);
        m = updateChat 3 (plain_chat ''A'' (Some 4)) (createBackup plain_env 2 s)
    in preserveDataDuringSync (config m) \<and> hasBackupData m
     \<and> map_option unreadCount (chat_at ''A'' (restoreFromBackup m)) = Some (Some 4))"
proof -
  have "(let s = upsertChat 1 (plain_chat ''A'' (Some 0)) (init_store default_config);
             m = updateChat 3 (plain_chat ''A'' (Some 4)) (createBackup plain_env 2 s)
         in preserveDataDuringSync (config m) \<and> hasBackupData m)"
    by code_simp
  then show ?thesis
    using backup_shares_chat_objects by (simp add: Let_def)
qed

text \<open>
  C9 as stated fails: after a backup of a store that holds group metadata only, the backup's
  group metadata is not empty and \<^verbatim>\<open>hasBackupData\<close> is false.
\<close>

theorem hasBackupData_ignores_groupMetadata:
  "(let s = createBackup plain_env 2
              (updateGroupMetadata 1 \<lparr>group_id = ''G'', group_lastUpdated = None, group_attrs = []\<rparr>
                 (init_store default_config))
    in map fst (backup_groupMetadata (backupData s)) = [''G''] \<and> \<not> hasBackupData s)"
  by code_simp


text \<open>
  C9, as amended. \<^verbatim>\<open>hasBackupData\<close> is true if and only if the backup's chats, messages
  or contacts are not all empty; the backup's group metadata has no part in it.
\<close>

theorem hasBackupData_iff:
  "(hasBackupData s \<longleftrightarrow>
      \<not> (backup_chats (backupData s) = [] \<and> backup_messages (backupData s) = [] \<and>
         backup_contacts (backupData s) = []))
   \<and> hasBackupData (s\<lparr>backupData := (backupData s)\<lparr>backup_groupMetadata := g\<rparr>\<rparr>) = hasBackupData s"
  by (simp add: hasBackupData_def)

subsection \<open>Events during a history sync\<close>

lemma updateChat_frame:
  "chats (updateChat now u s) = chats s"
  "length (heap (updateChat now u s)) = length (heap s)"
  by (simp_all add: updateChat_def Let_def emit_def split: option.splits)

lemma lastUpdated_assign:
  "lastUpdated (assign_chat ex (u\<lparr>lastUpdated := Some now\<rparr>)) = Some now"
  by (simp add: assign_chat_def over_def)

lemma updateChat_sets_now:
  "map_get (chat_id u) (chats s) = Some r \<Longrightarrow> r < length (heap s) \<Longrightarrow>
   lastUpdated (heap (updateChat now u s) ! r) = Some now"
  by (simp add: updateChat_def Let_def emit_def lastUpdated_assign)

lemma updateChat_keeps_now:
  assumes "r < length (heap s)" "lastUpdated (heap s ! r) = Some now"
  shows "lastUpdated (heap (updateChat now u s) ! r) = Some now"
proof (cases "map_get (chat_id u) (chats s)")
  case None
  then show ?thesis using assms by (simp add: updateChat_def)
next
  case (Some r')
  then show ?thesis using assms
    by (cases "r' = r") (simp_all add: updateChat_def Let_def emit_def lastUpdated_assign)
qed

lemma updateChats_frame:
  "chats (updateChats now us s) = chats s \<and> length (heap (updateChats now us s)) = length (heap s)"
  by (induction us arbitrary: s) (simp_all add: updateChat_frame)

lemma updateChats_keeps_now:
  "r < length (heap s) \<Longrightarrow> lastUpdated (heap s ! r) = Some now \<Longrightarrow>
   lastUpdated (heap (updateChats now us s) ! r) = Some now"
  by (induction us arbitrary: s) (simp_all add: updateChat_frame updateChat_keeps_now)

lemma updateChats_sets_now:
  "u \<in> set us \<Longrightarrow> map_get (chat_id u) (chats s) = Some r \<Longrightarrow> r < length (heap s) \<Longrightarrow>
   lastUpdated (heap (updateChats now us s) ! r) = Some now"
proof (induction us arbitrary: s)
  case Nil then show ?case by simp
next
  case (Cons a us)
  show ?case
  proof (cases "u = a")
    case True
    then show ?thesis using Cons.prems
      by (simp add: updateChats_keeps_now updateChat_frame updateChat_sets_now)
  next
    case False
    then show ?thesis using Cons.prems Cons.IH[of "updateChat now a s"]
      by (simp add: updateChat_frame)
  qed
qed

lemma chat_at_updateChats:
  assumes "u \<in> set us" "chat_at (chat_id u) s \<noteq> None"
  shows "map_option lastUpdated (chat_at (chat_id u) (updateChats now us s)) = Some (Some now)"
proof -
  from assms(2) obtain r where r: "map_get (chat_id u) (chats s) = Some r" "r < length (heap s)"
    by (auto simp: chat_at_def deref_def split: option.splits if_splits)
  have "lastUpdated (heap (updateChats now us s) ! r) = Some now"
    using updateChats_sets_now[OF assms(1) r] .
  then show ?thesis using r updateChats_frame[of now us s]
    by (simp add: chat_at_def deref_def)
qed

lemma processContactsUpsert_keeps:
  "contact_touched now j s \<Longrightarrow> contact_touched now j (processContactsUpsert E now cs s)"
proof (induction cs arbitrary: s)
  case Nil then show ?case by simp
next
  case (Cons c cs)
  show ?case
    apply (simp add: Let_def)
    apply (rule Cons.IH)
    using Cons.prems
    apply (simp add: contact_touched_def map_get_def map_set_def update_conv' merge_contact_def)
    done
qed

lemma processContactsUpsert_touches:
  "c \<in> set cs \<Longrightarrow>
   contact_touched now (jidNormalizedUser E (contact_id c)) (processContactsUpsert E now cs s)"
proof (induction cs arbitrary: s)
  case Nil then show ?case by simp
next
  case (Cons a cs)
  show ?case
  proof (cases "c = a")
    case True
    show ?thesis
      apply (simp add: Let_def True)
      apply (rule processContactsUpsert_keeps)
      apply (simp add: contact_touched_def map_get_def map_set_def update_conv' merge_contact_def)
      done
  next
    case False
    then show ?thesis using Cons by simp
  qed
qed

lemma updateGroups_keeps:
  "group_touched now j s \<Longrightarrow> group_touched now j (updateGroups now us s)"
proof (induction us arbitrary: s)
  case Nil then show ?case by simp
next
  case (Cons u us)
  show ?case
    apply simp
    apply (rule Cons.IH)
    using Cons.prems
    apply (simp add: group_touched_def updateGroupMetadata_def Let_def emit_def map_get_def
        map_set_def update_conv' merge_group_def)
    done
qed

lemma updateGroups_touches:
  "u \<in> set us \<Longrightarrow> group_touched now (group_id u) (updateGroups now us s)"
proof (induction us arbitrary: s)
  case Nil then show ?case by simp
next
  case (Cons a us)
  show ?case
  proof (cases "u = a")
    case True
    show ?thesis
      apply (simp add: True)
      apply (rule updateGroups_keeps)
      apply (simp add: group_touched_def updateGroupMetadata_def Let_def emit_def map_get_def
        map_set_def update_conv' merge_group_def)
      done
  next
    case False
    then show ?thesis using Cons by simp
  qed
qed


text \<open>
  C10. While \<^verbatim>\<open>isProcessingHistory\<close> is true the handler of \<^verbatim>\<open>chats.upsert\<close> leaves the
  store as it is, whatever the event carries. The handlers of \<^verbatim>\<open>chats.update\<close>,
  \<^verbatim>\<open>contacts.upsert\<close> and \<^verbatim>\<open>groups.update\<close> still write: every chat the store holds that
  an update names, every contact and every group of the event is stored with the current
  time as \<^verbatim>\<open>lastUpdated\<close>.
\<close>

theorem chats_upsert_dropped_during_sync:
  assumes "isProcessingHistory s"
  shows "on_chats_upsert now newChats s = s
       \<and> (\<forall>u \<in> set updates. chat_at (chat_id u) s \<noteq> None \<longrightarrow>
            map_option lastUpdated (chat_at (chat_id u) (on_chats_update now updates s))
              = Some (Some now))
       \<and> (\<forall>c \<in> set newContacts.
            map_option contact_lastUpdated
              (map_get (jidNormalizedUser E (contact_id c))
                 (contacts (on_contacts_upsert E now newContacts s))) = Some (Some now))
       \<and> (\<forall>g \<in> set groupUpdates.
            map_option group_lastUpdated
              (map_get (group_id g) (groupMetadata (on_groups_update now groupUpdates s)))
              = Some (Some now))"
proof (intro conjI ballI impI)
  show "on_chats_upsert now newChats s = s"
    using assms by (simp add: on_chats_upsert_def)
next
  fix u assume "u \<in> set updates" "chat_at (chat_id u) s \<noteq> None"
  then show "map_option lastUpdated (chat_at (chat_id u) (on_chats_update now updates s))
              = Some (Some now)"
    unfolding on_chats_update_def by (rule chat_at_updateChats)
next
  fix c assume "c \<in> set newContacts"
  then show "map_option contact_lastUpdated
              (map_get (jidNormalizedUser E (contact_id c))
                 (contacts (on_contacts_upsert E now newContacts s))) = Some (Some now)"
    using processContactsUpsert_touches[of c newContacts now E s]
    by (simp add: on_contacts_upsert_def contact_touched_def)
next
  fix g assume "g \<in> set groupUpdates"
  then show "map_option group_lastUpdated
              (map_get (group_id g) (groupMetadata (on_groups_update now groupUpdates s)))
              = Some (Some now)"
    using updateGroups_touches[of g groupUpdates now s]
    by (simp add: on_groups_update_def group_touched_def)
qed

theorem chats_upsert_dropped_during_sync_witness:
  "(let s = (upsertChat 1 (plain_chat ''A'' None) (init_store default_config))
              \<lparr>isProcessingHistory := True\<rparr>;
        c = \<lparr>contact_id = ''C'', contact_lastUpdated = None, contact_attrs = []\<rparr>;
        g = \<lparr>group_id = ''G'', group_lastUpdated = None, group_attrs = []\<rparr>
    in isProcessingHistory s
     \<and> chat_at ''A'' s \<noteq> None
     \<and> on_chats_upsert 5 [plain_chat ''B'' None] s = s
     \<and> chat_at ''B'' (on_chats_upsert 5 [plain_chat ''B'' None] s) = None
     \<and> map_option lastUpdated (chat_at ''A'' s) = Some (Some 1)
     \<and> map_option lastUpdated (chat_at ''A'' (on_chats_update 5 [plain_chat ''A'' None] s))
         = Some (Some 5)
     \<and> map_get ''C'' (contacts s) = None
     \<and> map_option contact_lastUpdated (map_get ''C'' (contacts (on_contacts_upsert plain_env 5 [c] s)))
         = Some (Some 5)
     \<and> map_get ''G'' (groupMetadata s) = None
     \<and> map_option group_lastUpdated (map_get ''G'' (groupMetadata (on_groups_update 5 [g] s)))
         = Some (Some 5))"
proof -
  define s where "s = (upsertChat 1 (plain_chat ''A'' None) (init_store default_config))
              \<lparr>isProcessingHistory := True\<rparr>"
  define c where "c = \<lparr>contact_id = ''C'', contact_lastUpdated = None, contact_attrs = []\<rparr>"
  define g where "g = \<lparr>group_id = ''G'', group_lastUpdated = None, group_attrs = []\<rparr>"
  have p: "isProcessingHistory s" by (simp add: s_def)
  have a: "chat_at ''A'' s \<noteq> None" "chat_at ''B'' s = None"
    "map_option lastUpdated (chat_at ''A'' s) = Some (Some 1)"
    "map_get ''C'' (contacts s) = None" "map_get ''G'' (groupMetadata s) = None"
    unfolding s_def by code_simp+
  have ids: "chat_id (plain_chat ''A'' None) = ''A''" "contact_id c = ''C''" "group_id g = ''G''"
    "jidNormalizedUser plain_env ''C'' = ''C''"
    by (simp_all add: plain_chat_def c_def g_def plain_env_def)
  from chats_upsert_dropped_during_sync[OF p, of 5 "[plain_chat ''B'' None]"
      "[plain_chat ''A'' None]" "[c]" plain_env "[g]"]
  show ?thesis
    unfolding s_def[symmetric] c_def[symmetric] g_def[symmetric] Let_def
    using p a ids by simp
qed

subsection \<open>The atomic write\<close>

lemma tempFile_neq: "file @ ''.tmp.'' @ show_nat now \<noteq> file"
proof
  assume "file @ ''.tmp.'' @ show_nat now = file"
  then have "length (file @ ''.tmp.'' @ show_nat now) = length file" by simp
  then show False by simp
qed

lemma map_get_set: "map_get p (map_set q v m) = (if p = q then Some v else map_get p m)"
  by (simp add: map_get_def map_set_def update_conv')

lemma map_get_delete: "map_get p (map_delete q m) = (if p = q then None else map_get p m)"
  by (simp add: map_get_def map_delete_def delete_conv')

lemma map_has_get: "map_has p m \<longleftrightarrow> map_get p m \<noteq> None"
  by (simp add: map_has_def map_get_def)


text \<open>
  C5. \<^verbatim>\<open>writeToFileInternal\<close> succeeds only when no step fails and the document written to
  the temporary file has at least 10 bytes; the target then holds the document and the
  temporary file is gone. When it throws, the target holds what it held before (nothing,
  if it did not exist), and the temporary file is gone unless its removal failed too.
  No other file and nothing else of the store changes.
\<close>

theorem atomic_write:
  "(let tempFile = file @ ''.tmp.'' @ show_nat now;
        outcome = fst (next_io s);
        (err, s') = writeToFileInternal E now file data s
    in (case err of
          None \<Rightarrow>
            map_get file (files s') = Some (stringify E data) \<and>
            10 \<le> length (stringify E data) \<and>
            \<not> map_has tempFile (files s')
        | Some e \<Rightarrow>
            map_get file (files s') = map_get file (files s) \<and>
            (\<not> unlink_fails outcome \<longrightarrow> \<not> map_has tempFile (files s')))
     \<and> (err = None \<longleftrightarrow> fault outcome = NoFault \<and> 10 \<le> length (stringify E data))
     \<and> (\<forall>p. p \<noteq> file \<and> p \<noteq> tempFile \<longrightarrow> map_get p (files s') = map_get p (files s))
     \<and> s'\<lparr>files := files s, io_script := io_script s\<rparr> = s)"
proof -
  define tf where "tf = file @ ''.tmp.'' @ show_nat now"
  define json where "json = stringify E data"
  have ne: "tf \<noteq> file" "file \<noteq> tf"
    using tempFile_neq[of "file" "now"] unfolding tf_def by auto
  obtain outcome s0 where n: "next_io s = (outcome, s0)" by (cases "next_io s")
  have s0: "files s0 = files s" "s0\<lparr>io_script := io_script s\<rparr> = s"
    using n by (auto simp: next_io_def split: list.splits)
  have undo: "s0\<lparr>files := files s, io_script := io_script s\<rparr> = s"
    using n by (auto simp: next_io_def split: list.splits)
  define cleanup :: "(path, string) jsmap \<Rightarrow> (path, string) jsmap" where
    "cleanup = (\<lambda>fs. if unlink_fails outcome then fs else map_delete tf fs)"
  have cl: "map_get p (cleanup F) = (if p = tf \<and> \<not> unlink_fails outcome then None else map_get p F)"
    for p F by (simp add: cleanup_def map_get_delete)
  have w: "writeToFileInternal E now file data s =
     (case fault outcome of
        WriteFileFault partial \<Rightarrow>
          (Some (IOError ''writeFile''),
           s0\<lparr>files := cleanup (case partial of None \<Rightarrow> files s0
                                 | Some p \<Rightarrow> map_set tf p (files s0))\<rparr>)
      | StatFault \<Rightarrow> (Some (IOError ''stat''), s0\<lparr>files := cleanup (map_set tf json (files s0))\<rparr>)
      | f \<Rightarrow>
          if length json < 10 then (Some TooSmall, s0\<lparr>files := cleanup (map_set tf json (files s0))\<rparr>)
          else if f = RenameFault
               then (Some (IOError ''rename''), s0\<lparr>files := cleanup (map_set tf json (files s0))\<rparr>)
               else (None, s0\<lparr>files := map_set file json (map_delete tf (map_set tf json (files s0)))\<rparr>))"
    unfolding writeToFileInternal_def n tf_def json_def cleanup_def Let_def by simp
  consider (ok) "fault outcome = NoFault" "10 \<le> length json"
    | (small) "fault outcome = NoFault \<or> fault outcome = RenameFault" "length json < 10"
    | (rename) "fault outcome = RenameFault" "10 \<le> length json"
    | (stat) "fault outcome = StatFault"
    | (wf) partial where "fault outcome = WriteFileFault partial"
    by (cases "fault outcome"; cases "length json < 10") (auto simp: not_less)
  then have "\<exists>err F. writeToFileInternal E now file data s = (err, s0\<lparr>files := F\<rparr>) \<and>
      (err = None \<longleftrightarrow> fault outcome = NoFault \<and> 10 \<le> length json) \<and>
      (err = None \<longrightarrow> map_get file F = Some json \<and> map_get tf F = None) \<and>
      (err \<noteq> None \<longrightarrow> map_get file F = map_get file (files s) \<and>
          (\<not> unlink_fails outcome \<longrightarrow> map_get tf F = None)) \<and>
      (\<forall>p. p \<noteq> file \<and> p \<noteq> tf \<longrightarrow> map_get p F = map_get p (files s))"
  proof cases
    case ok
    show ?thesis
      by (rule exI[of _ None], rule exI[of _ "map_set file json (map_delete tf (map_set tf json (files s0)))"])
         (use ok ne s0(1) in \<open>simp add: w map_get_set map_get_delete\<close>)
  next
    case small
    show ?thesis
      by (rule exI[of _ "Some TooSmall"], rule exI[of _ "cleanup (map_set tf json (files s0))"])
         (use small ne s0(1) in \<open>auto simp: w cl map_get_set\<close>)
  next
    case rename
    show ?thesis
      by (rule exI[of _ "Some (IOError ''rename'')"], rule exI[of _ "cleanup (map_set tf json (files s0))"])
         (use rename ne s0(1) in \<open>simp add: w cl map_get_set\<close>)
  next
    case stat
    show ?thesis
      by (rule exI[of _ "Some (IOError ''stat'')"], rule exI[of _ "cleanup (map_set tf json (files s0))"])
         (use stat ne s0(1) in \<open>simp add: w cl map_get_set\<close>)
  next
    case wf
    show ?thesis
      by (rule exI[of _ "Some (IOError ''writeFile'')"],
          rule exI[of _ "cleanup (case partial of None \<Rightarrow> files s0 | Some p \<Rightarrow> map_set tf p (files s0))"])
         (use wf ne s0(1) in \<open>simp add: w cl map_get_set split: option.splits\<close>)
  qed
  then obtain err F where r: "writeToFileInternal E now file data s = (err, s0\<lparr>files := F\<rparr>)"
      "err = None \<longleftrightarrow> fault outcome = NoFault \<and> 10 \<le> length json"
      "err = None \<longrightarrow> map_get file F = Some json \<and> map_get tf F = None"
      "err \<noteq> None \<longrightarrow> map_get file F = map_get file (files s) \<and>
          (\<not> unlink_fails outcome \<longrightarrow> map_get tf F = None)"
      "\<forall>p. p \<noteq> file \<and> p \<noteq> tf \<longrightarrow> map_get p F = map_get p (files s)"
    by blast
  show ?thesis
    unfolding Let_def r(1) n tf_def[symmetric] json_def[symmetric]
    using r(2-5) by (cases err) (simp_all add: undo map_has_get)
qed

theorem atomic_write_witness:
  "(let s = (init_store default_config)
              \<lparr>files := [(''store.json'', ''previous snapshot'')],
               io_script := [\<lparr>fault = RenameFault, unlink_fails = False\<rparr>]\<rparr>;
        r = writeToFileInternal plain_env 7 ''store.json'' (serializeStoreData 7 s) s
    in fst r = Some (IOError ''rename'')
     \<and> map_get ''store.json'' (files (snd r)) = Some ''previous snapshot''
     \<and> \<not> map_has ''store.json.tmp.7'' (files (snd r)))"
proof -
  define s where "s = (init_store default_config)
              \<lparr>files := [(''store.json'', ''previous snapshot'')],
               io_script := [\<lparr>fault = RenameFault, unlink_fails = False\<rparr>]\<rparr>"
  define r where "r = writeToFileInternal plain_env 7 ''store.json'' (serializeStoreData 7 s) s"
  have e: "fst r = Some (IOError ''rename'')" unfolding r_def s_def by code_simp
  have o: "\<not> unlink_fails (fst (next_io s))" unfolding s_def by code_simp
  have f: "map_get ''store.json'' (files s) = Some ''previous snapshot''"
    unfolding s_def by code_simp
  have t: "''store.json'' @ ''.tmp.'' @ show_nat 7 = ''store.json.tmp.7''" by code_simp
  from atomic_write[of "''store.json''" 7 s plain_env "serializeStoreData 7 s"]
  have "map_get ''store.json'' (files (snd r)) = map_get ''store.json'' (files s)
      \<and> \<not> map_has ''store.json.tmp.7'' (files (snd r))"
    unfolding r_def[symmetric] Let_def t using e o by (cases r) auto
  then show ?thesis
    unfolding s_def[symmetric] r_def[symmetric] Let_def using e f by simp
qed


subsection \<open>The write lock\<close>

lemma acquireWriteLock_Some:
  assumes "acquireWriteLock key s = Some s'"
  shows "\<not> map_has key (writeLocks s) \<and> s' = s\<lparr>writeLocks := map_set key True (writeLocks s)\<rparr>"
  by (rule acquireWriteLock.raw_induct[rotated, OF assms]) (auto split: if_splits)

lemma acquireWriteLock_held:
  "map_has key (writeLocks s) \<Longrightarrow> acquireWriteLock key s = None"
  using acquireWriteLock_Some[of key s] by (cases "acquireWriteLock key s") auto

lemma acquireWriteLock_free:
  "\<not> map_has key (writeLocks s) \<Longrightarrow>
   acquireWriteLock key s = Some (s\<lparr>writeLocks := map_set key True (writeLocks s)\<rparr>)"
  by (subst acquireWriteLock.simps) simp


subsection \<open>One write at a time\<close>

lemma distinct_set_add: "distinct xs \<Longrightarrow> distinct (set_add x xs)"
  by (simp add: set_add_def)

lemma writeToFileInternal_flags:
  "isWriting (snd (writeToFileInternal E now file data s)) = isWriting s"
  "pendingWrites (snd (writeToFileInternal E now file data s)) = pendingWrites s"
  "scheduled (snd (writeToFileInternal E now file data s)) = scheduled s"
  by (auto simp: writeToFileInternal_def next_io_def Let_def split: list.splits fs_fault.splits)

lemma writeToFile_body_flags:
  assumes "writeToFile_body E now file s = Some s'"
  shows "isWriting s' = isWriting s \<and> pendingWrites s' = pendingWrites s \<and>
         scheduled s' = scheduled s"
proof -
  from assms obtain s1 where a: "acquireWriteLock ''file'' s = Some s1"
    and r: "(case writeToFileInternal E now file (serializeStoreData now s1) s1 of
          (None, s2) \<Rightarrow>
            Some (emit (StoreSaved file now)
                    (s2\<lparr>stats := (stats s2)\<lparr>lastSave := Some now\<rparr>,
                        lastSuccessfulSave := Some now\<rparr>))
        | (Some e, s2) \<Rightarrow> Some (emit (StoreError e) s2)) = Some s'"
    by (auto simp: writeToFile_body_def split: Option.bind_splits)
  have s1: "isWriting s1 = isWriting s" "pendingWrites s1 = pendingWrites s"
    "scheduled s1 = scheduled s"
    using acquireWriteLock_Some[OF a] by simp_all
  obtain err s2 where w: "writeToFileInternal E now file (serializeStoreData now s1) s1 = (err, s2)"
    by (cases "writeToFileInternal E now file (serializeStoreData now s1) s1")
  have s2: "isWriting s2 = isWriting s1" "pendingWrites s2 = pendingWrites s1"
    "scheduled s2 = scheduled s1"
    using writeToFileInternal_flags[of E now "file" "serializeStoreData now s1" s1] w by simp_all
  show ?thesis using r s1 s2 unfolding w
    by (cases err) (auto simp: emit_def)
qed

lemma writeToFile_finally_flags:
  "\<not> isWriting (writeToFile_finally s)"
  "scheduled (writeToFile_finally s) =
     (case pendingWrites s of [] \<Rightarrow> scheduled s | f # rest \<Rightarrow> scheduled s @ [f])"
  "distinct (pendingWrites s) \<Longrightarrow>
   pendingWrites (writeToFile_finally s) = (case pendingWrites s of [] \<Rightarrow> [] | f # rest \<Rightarrow> rest)"
  by (auto simp: writeToFile_finally_def releaseWriteLock_def Let_def split: list.splits)

lemma one_writer_request: "one_writer y \<Longrightarrow> one_writer (request file y)"
  by (auto simp: one_writer_def request_def writeToFile_begin_def distinct_set_add)

lemma one_writer_step:
  assumes "one_writer y" "step E now a y = Some y'"
  shows "one_writer y'"
proof (cases a)
  case (Request f)
  then show ?thesis using assms one_writer_request by auto
next
  case RunScheduled
  from assms(2) RunScheduled obtain f rest where
    sc: "scheduled (st y) = f # rest" and y': "y' = request f (y\<lparr>st := (st y)\<lparr>scheduled := rest\<rparr>\<rparr>)"
    by (auto split: list.splits)
  have "one_writer (y\<lparr>st := (st y)\<lparr>scheduled := rest\<rparr>\<rparr>)"
    using assms(1) by (simp add: one_writer_def)
  then show ?thesis unfolding y' by (rule one_writer_request)
next
  case Complete
  from assms(2) Complete obtain f rest s1 where
    inf: "inflight y = f # rest" and b: "writeToFile_body E now f (st y) = Some s1"
    and y': "y' = \<lparr>st = writeToFile_finally s1, inflight = rest\<rparr>"
    by (auto split: list.splits option.splits)
  have rest: "rest = []" using assms(1) inf by (simp add: one_writer_def)
  have d: "distinct (pendingWrites s1)"
    using writeToFile_body_flags[OF b] assms(1) by (simp add: one_writer_def)
  show ?thesis
    unfolding y' one_writer_def
    using rest d writeToFile_finally_flags[of s1]
    by (auto split: list.splits)
qed

lemma one_writer_exec:
  "one_writer y \<Longrightarrow> exec E acts y = Some y' \<Longrightarrow> one_writer y'"
proof (induction acts arbitrary: y)
  case Nil then show ?case by simp
next
  case (Cons a acts)
  obtain now act where a: "a = (now, act)" by (cases a)
  from Cons.prems(2) obtain y1 where s: "step E now act y = Some y1" and e: "exec E acts y1 = Some y'"
    by (auto simp: a split: option.splits)
  show ?case using Cons.IH[OF one_writer_step[OF Cons.prems(1) s] e] .
qed


text \<open>
  C6. In every state reached by requests, scheduled callbacks and completions, at most one
  write is in flight, and \<^verbatim>\<open>isWriting\<close> says whether one is. A request made while a write
  is in flight starts nothing and only adds its file to the pending set; when the file is
  pending already, the request changes nothing. When the write in flight ends, the first
  pending file, if there is one, leaves the pending set and is handed to \<^verbatim>\<open>setImmediate\<close>,
  and nothing else is.
\<close>

theorem single_writer:
  assumes "one_writer y"
  shows "(exec E acts y = Some y' \<longrightarrow> one_writer y')
       \<and> (isWriting (st y) \<longrightarrow>
            request file y = y\<lparr>st := (st y)\<lparr>pendingWrites := set_add file (pendingWrites (st y))\<rparr>\<rparr>
            \<and> file \<in> set (pendingWrites (st (request file y))))
       \<and> (isWriting (st y) \<and> file \<in> set (pendingWrites (st y)) \<longrightarrow> request file y = y)
       \<and> (step E now Complete y = Some y'' \<longrightarrow>
            inflight y'' = [] \<and> \<not> isWriting (st y'') \<and>
            (case pendingWrites (st y) of
               [] \<Rightarrow> scheduled (st y'') = scheduled (st y) \<and> pendingWrites (st y'') = []
             | f # rest \<Rightarrow> scheduled (st y'') = scheduled (st y) @ [f] \<and>
                           pendingWrites (st y'') = rest))"
proof (intro conjI impI)
  assume "exec E acts y = Some y'"
  with assms show "one_writer y'" by (rule one_writer_exec)
next
  assume w: "isWriting (st y)"
  then show "request file y = y\<lparr>st := (st y)\<lparr>pendingWrites := set_add file (pendingWrites (st y))\<rparr>\<rparr>"
    by (simp add: request_def writeToFile_begin_def)
  then show "file \<in> set (pendingWrites (st (request file y)))"
    by (simp add: set_add_def)
next
  assume "isWriting (st y) \<and> file \<in> set (pendingWrites (st y))"
  then show "request file y = y"
    by (simp add: request_def writeToFile_begin_def set_add_def)
next
  assume c: "step E now Complete y = Some y''"
  then obtain f rest s1 where
    inf: "inflight y = f # rest" and b: "writeToFile_body E now f (st y) = Some s1"
    and y'': "y'' = \<lparr>st = writeToFile_finally s1, inflight = rest\<rparr>"
    by (auto split: list.splits option.splits)
  have rest: "rest = []" using assms inf by (simp add: one_writer_def)
  have fl: "pendingWrites s1 = pendingWrites (st y)" "scheduled s1 = scheduled (st y)"
    using writeToFile_body_flags[OF b] by simp_all
  have d: "distinct (pendingWrites s1)" using assms fl by (simp add: one_writer_def)
  show "inflight y'' = []" using y'' rest by simp
  show "\<not> isWriting (st y'')" using y'' writeToFile_finally_flags(1) by simp
  show "case pendingWrites (st y) of
               [] \<Rightarrow> scheduled (st y'') = scheduled (st y) \<and> pendingWrites (st y'') = []
             | f # rest \<Rightarrow> scheduled (st y'') = scheduled (st y) @ [f] \<and>
                           pendingWrites (st y'') = rest"
    using y'' writeToFile_finally_flags(2)[of s1] writeToFile_finally_flags(3)[OF d] fl
    by (auto split: list.splits)
qed

theorem single_writer_witness:
  "(let y0 = \<lparr>st = upsertChat 1 (plain_chat ''A'' None) (init_store default_config), inflight = []\<rparr>;
        y2 = request ''f'' (request ''f'' y0);
        r = exec plain_env [(2, Request ''f''), (3, Request ''f''), (5, Complete)] y0
    in one_writer y0
     \<and> inflight y2 = [''f''] \<and> isWriting (st y2) \<and> pendingWrites (st y2) = [''f'']
     \<and> request ''f'' y2 = y2
     \<and> map_option one_writer r = Some True
     \<and> map_option inflight r = Some []
     \<and> map_option (\<lambda>y. scheduled (st y)) r = Some [''f''])"
proof -
  define y0 where "y0 = \<lparr>st = upsertChat 1 (plain_chat ''A'' None) (init_store default_config), inflight = []\<rparr>"
  define y2 where "y2 = request ''f'' (request ''f'' y0)"
  define r where "r = exec plain_env [(2, Request ''f''), (3, Request ''f''), (5, Complete)] y0"
  have w0: "one_writer y0" unfolding y0_def one_writer_def by code_simp
  have i2: "inflight y2 = [''f'']" "isWriting (st y2)" "pendingWrites (st y2) = [''f'']"
    "scheduled (st y2) = []"
    unfolding y2_def y0_def by code_simp+
  have w2: "one_writer y2" unfolding y2_def by (intro one_writer_request w0)
  have mem: "''f'' \<in> set (pendingWrites (st y2))" using i2(3) by simp
  have c3: "request ''f'' y2 = y2"
    using single_writer[OF w2, THEN conjunct2, THEN conjunct2, THEN conjunct1] i2(2) mem
    by blast
  have ex: "r = step plain_env 5 Complete y2"
    unfolding r_def y2_def by (simp del: step.simps(3) split: option.splits)
  have "r \<noteq> None" unfolding r_def y0_def by code_simp
  then obtain y3 where s3: "r = Some y3" by auto
  have st: "step plain_env 5 Complete y2 = Some y3" using ex s3 by simp
  have f3: "inflight y3 = []" "scheduled (st y3) = [''f'']"
    using single_writer[OF w2, THEN conjunct2, THEN conjunct2, THEN conjunct2, rule_format, OF st]
      i2(3,4) by simp_all
  have w3: "one_writer y3"
    using single_writer[OF w0, THEN conjunct1, rule_format] s3 unfolding r_def by blast
  show ?thesis
    unfolding y0_def[symmetric] Let_def y2_def[symmetric] r_def[symmetric] s3
    using w0 i2 c3 w3 f3 by simp
qed

subsection \<open>Falling back to the backup file\<close>

text \<open>
  C8. When the snapshot file has fewer than 10 bytes and the \<^verbatim>\<open>.backup\<close> file beside it
  has more than 10, \<^verbatim>\<open>readFromFile\<close> calls itself for the backup file while it holds the
  lock \<^verbatim>\<open>'file'\<close>. The inner call waits for that same lock, so neither call returns: the
  backup is not loaded.
\<close>

theorem readFromFile_backup_never_returns:
  assumes "\<not> map_has ''file'' (writeLocks s)"
    and "map_get file (files s) = Some raw" and "length raw < 10"
    and "map_get (file @ ''.backup'') (files s) = Some b" and "length b > 10"
  shows "readFromFile E now file s = None"
proof -
  let ?s1 = "s\<lparr>writeLocks := map_set ''file'' True (writeLocks s)\<rparr>"
  have held: "map_has ''file'' (writeLocks ?s1)"
    by (simp add: map_has_def map_set_def update_conv')
  have inner: "readFromFile E now (file @ ''.backup'') ?s1 = None"
    by (subst readFromFile.simps) (simp add: acquireWriteLock_held[OF held])
  show ?thesis
    by (subst readFromFile.simps)
       (use assms in \<open>simp add: acquireWriteLock_free inner\<close>)
qed

theorem readFromFile_backup_never_returns_witness:
  "(let s = (init_store default_config)
              \<lparr>files := [(''baileys_store.json'', ''12345''),
                         (''baileys_store.json.backup'', ''{ a valid snapshot }'')]\<rparr>
    in \<not> map_has ''file'' (writeLocks s)
     \<and> map_get ''baileys_store.json'' (files s) = Some ''12345''
     \<and> map_get ''baileys_store.json.backup'' (files s) = Some ''{ a valid snapshot }''
     \<and> readFromFile plain_env 1 ''baileys_store.json'' s = None)"
proof -
  define s where "s = (init_store default_config)
              \<lparr>files := [(''baileys_store.json'', ''12345''),
                         (''baileys_store.json.backup'', ''{ a valid snapshot }'')]\<rparr>"
  have a: "\<not> map_has ''file'' (writeLocks s)"
    "map_get ''baileys_store.json'' (files s) = Some ''12345''"
    "map_get (''baileys_store.json'' @ ''.backup'') (files s) = Some ''{ a valid snapshot }''"
    unfolding s_def by code_simp+
  have "readFromFile plain_env 1 ''baileys_store.json'' s = None"
    by (rule readFromFile_backup_never_returns[OF a(1) a(2) _ a(3)]) simp_all
  then show ?thesis
    unfolding s_def[symmetric] Let_def using a by simp
qed

text \<open>
  The other ways through \<^verbatim>\<open>readFromFile\<close> return and release the lock: a file that is
  absent, a file under 10 bytes with no backup file over 10 bytes, and a document that
  fails \<^verbatim>\<open>validateStoreData\<close>, which is reported with \<^verbatim>\<open>store.error\<close> while the maps stay
  as they were.
\<close>

lemma readFromFile_returning_paths:
  assumes "\<not> map_has ''file'' (writeLocks s)"
  shows "map_get file (files s) = None \<Longrightarrow>
           readFromFile E now file s =
             Some (releaseWriteLock ''file''
                     (s\<lparr>writeLocks := map_set ''file'' True (writeLocks s)\<rparr>))"
    and "map_get file (files s) = Some raw \<Longrightarrow> length raw < 10 \<Longrightarrow>
         (case map_get (file @ ''.backup'') (files s) of None \<Rightarrow> True | Some b \<Rightarrow> length b \<le> 10) \<Longrightarrow>
           readFromFile E now file s =
             Some (releaseWriteLock ''file''
                     (s\<lparr>writeLocks := map_set ''file'' True (writeLocks s)\<rparr>))"
    and "map_get file (files s) = Some raw \<Longrightarrow> 10 \<le> length raw \<Longrightarrow> \<not> blank raw \<Longrightarrow>
         parse E raw = Some data \<Longrightarrow> \<not> validateStoreData data \<Longrightarrow>
           readFromFile E now file s =
             Some (releaseWriteLock ''file''
                     (emit (StoreError InvalidStructure)
                        (s\<lparr>writeLocks := map_set ''file'' True (writeLocks s)\<rparr>)))"
proof -
  let ?locked = "s\<lparr>writeLocks := map_set ''file'' True (writeLocks s)\<rparr>"
  have a: "acquireWriteLock ''file'' s = Some ?locked"
    using assms(1) by (rule acquireWriteLock_free)
  show "map_get file (files s) = None \<Longrightarrow>
           readFromFile E now file s = Some (releaseWriteLock ''file'' ?locked)"
    by (subst readFromFile.simps) (simp add: a)
  show "map_get file (files s) = Some raw \<Longrightarrow> length raw < 10 \<Longrightarrow>
         (case map_get (file @ ''.backup'') (files s) of None \<Rightarrow> True | Some b \<Rightarrow> length b \<le> 10) \<Longrightarrow>
           readFromFile E now file s = Some (releaseWriteLock ''file'' ?locked)"
    by (subst readFromFile.simps) (simp add: a split: option.splits)
  show "map_get file (files s) = Some raw \<Longrightarrow> 10 \<le> length raw \<Longrightarrow> \<not> blank raw \<Longrightarrow>
         parse E raw = Some data \<Longrightarrow> \<not> validateStoreData data \<Longrightarrow>
           readFromFile E now file s =
             Some (releaseWriteLock ''file'' (emit (StoreError InvalidStructure) ?locked))"
    by (subst readFromFile.simps) (cases data; simp add: a)
qed

subsection \<open>The history sync\<close>

lemma writeToFileInternal_frame:
  "chats (snd (writeToFileInternal E now file data s)) = chats s"
  "heap (snd (writeToFileInternal E now file data s)) = heap s"
  "messages (snd (writeToFileInternal E now file data s)) = messages s"
  "contacts (snd (writeToFileInternal E now file data s)) = contacts s"
  "config (snd (writeToFileInternal E now file data s)) = config s"
  "writeLocks (snd (writeToFileInternal E now file data s)) = writeLocks s"
  by (auto simp: writeToFileInternal_def next_io_def Let_def split: list.splits fs_fault.splits)

lemma createBackup_frame:
  "chats (createBackup E now s) = chats s"
  "heap (createBackup E now s) = heap s"
  "messages (createBackup E now s) = messages s"
  "contacts (createBackup E now s) = contacts s"
  "config (createBackup E now s) = config s"
  "writeLocks (createBackup E now s) = writeLocks s"
  by (simp_all add: createBackup_def Let_def copyToBackup_def writeToFileInternal_frame)

lemma writeToFile_returns:
  assumes "\<not> map_has ''file'' (writeLocks s)"
  shows "\<exists>s'. writeToFile E now file s = Some s' \<and>
           chats s' = chats s \<and> heap s' = heap s \<and> messages s' = messages s \<and>
           contacts s' = contacts s \<and> config s' = config s \<and>
           \<not> map_has ''file'' (writeLocks s')"
proof (cases "snd (writeToFile_begin file s)")
  case False
  then show ?thesis using assms
    by (auto simp: writeToFile_def writeToFile_begin_def split: if_splits)
next
  case True
  then have b: "writeToFile_begin file s = (s\<lparr>isWriting := True\<rparr>, True)"
    by (auto simp: writeToFile_begin_def split: if_splits)
  let ?s0 = "s\<lparr>isWriting := True\<rparr>"
  let ?s1 = "?s0\<lparr>writeLocks := map_set ''file'' True (writeLocks ?s0)\<rparr>"
  have a: "acquireWriteLock ''file'' ?s0 = Some ?s1"
    using assms by (simp add: acquireWriteLock_free)
  obtain err s2 where w: "writeToFileInternal E now file (serializeStoreData now ?s1) ?s1 = (err, s2)"
    by (cases "writeToFileInternal E now file (serializeStoreData now ?s1) ?s1")
  have f2: "chats s2 = chats s" "heap s2 = heap s" "messages s2 = messages s"
    "contacts s2 = contacts s" "config s2 = config s"
    using writeToFileInternal_frame[of E now "file" "serializeStoreData now ?s1" ?s1] w by simp_all
  define s3 where "s3 = (case err of
          None \<Rightarrow> emit (StoreSaved file now)
                    (s2\<lparr>stats := (stats s2)\<lparr>lastSave := Some now\<rparr>,
                        lastSuccessfulSave := Some now\<rparr>)
        | Some e \<Rightarrow> emit (StoreError e) s2)"
  have body: "writeToFile_body E now file ?s0 = Some s3"
    unfolding writeToFile_body_def a s3_def using w by (simp split: option.splits)
  have f3: "chats s3 = chats s" "heap s3 = heap s" "messages s3 = messages s"
    "contacts s3 = contacts s" "config s3 = config s"
    unfolding s3_def using f2 by (simp_all add: emit_def split: option.splits)
  have fin: "chats (writeToFile_finally s3) = chats s3" "heap (writeToFile_finally s3) = heap s3"
    "messages (writeToFile_finally s3) = messages s3" "contacts (writeToFile_finally s3) = contacts s3"
    "config (writeToFile_finally s3) = config s3"
    "\<not> map_has ''file'' (writeLocks (writeToFile_finally s3))"
    by (simp_all add: writeToFile_finally_def releaseWriteLock_def Let_def map_has_def
        map_delete_def delete_conv' split: list.splits)
  show ?thesis
    unfolding writeToFile_def b using body f3 fin by simp
qed

lemma pc_frame:
  "messages (processChatsOptimized now cs s) = messages s"
  "contacts (processChatsOptimized now cs s) = contacts s"
  "config (processChatsOptimized now cs s) = config s"
  "writeLocks (processChatsOptimized now cs s) = writeLocks s"
  by (induction cs arbitrary: s) simp_all

lemma pc_cong:
  "chats s = chats t \<Longrightarrow> heap s = heap t \<Longrightarrow>
   chats (processChatsOptimized now cs s) = chats (processChatsOptimized now cs t) \<and>
   heap (processChatsOptimized now cs s) = heap (processChatsOptimized now cs t)"
proof (induction cs arbitrary: s t)
  case Nil then show ?case by simp
next
  case (Cons c cs)
  show ?case
    apply (simp only: processChatsOptimized.simps)
    apply (rule Cons.IH)
    using Cons.prems by simp_all
qed

lemma pc_nonempty:
  "cs \<noteq> [] \<or> chats s \<noteq> [] \<Longrightarrow> chats (processChatsOptimized now cs s) \<noteq> []"
proof (induction cs arbitrary: s)
  case Nil then show ?case by simp
next
  case (Cons c cs)
  have "chats (if \<not> map_has (chat_id c) (chats s)
        then s\<lparr>heap := heap s @ [c\<lparr>syncedAt := Some now\<rparr>],
               chats := map_set (chat_id c) (length (heap s)) (chats s)\<rparr>
        else s) \<noteq> []"
    by (auto simp: map_has_def map_set_def)
  then show ?case using Cons.IH by simp
qed

lemma pc_keeps:
  "map_has j (chats s) \<Longrightarrow>
   map_get j (chats (processChatsOptimized now cs s)) = map_get j (chats s)"
proof (induction cs arbitrary: s)
  case Nil then show ?case by simp
next
  case (Cons c cs)
  let ?s = "(if \<not> map_has (chat_id c) (chats s)
        then s\<lparr>heap := heap s @ [c\<lparr>syncedAt := Some now\<rparr>],
               chats := map_set (chat_id c) (length (heap s)) (chats s)\<rparr>
        else s)"
  have g: "map_get j (chats ?s) = map_get j (chats s)"
    using Cons.prems by (auto simp: map_has_def map_get_def map_set_def update_conv')
  then have "map_has j (chats ?s)" using Cons.prems by (simp add: map_has_def map_get_def)
  from Cons.IH[OF this] g show ?case by simp
qed

lemma pc_heap:
  "r < length (heap s) \<Longrightarrow> heap (processChatsOptimized now cs s) ! r = heap s ! r"
proof (induction cs arbitrary: s)
  case Nil then show ?case by simp
next
  case (Cons c cs)
  let ?s = "(if \<not> map_has (chat_id c) (chats s)
        then s\<lparr>heap := heap s @ [c\<lparr>syncedAt := Some now\<rparr>],
               chats := map_set (chat_id c) (length (heap s)) (chats s)\<rparr>
        else s)"
  have "r < length (heap ?s)" "heap ?s ! r = heap s ! r"
    using Cons.prems by (auto simp: nth_append)
  with Cons.IH[of ?s] show ?case by simp
qed

lemma pc_keys:
  "map_has j (chats (processChatsOptimized now cs s)) \<Longrightarrow>
   map_has j (chats s) \<or> j \<in> chat_id ` set cs"
proof (induction cs arbitrary: s)
  case Nil then show ?case by simp
next
  case (Cons c cs)
  let ?s = "(if \<not> map_has (chat_id c) (chats s)
        then s\<lparr>heap := heap s @ [c\<lparr>syncedAt := Some now\<rparr>],
               chats := map_set (chat_id c) (length (heap s)) (chats s)\<rparr>
        else s)"
  from Cons.prems have "map_has j (chats (processChatsOptimized now cs ?s))" by simp
  from Cons.IH[OF this] have "map_has j (chats ?s) \<or> j \<in> chat_id ` set cs" .
  moreover have "map_has j (chats ?s) \<Longrightarrow> map_has j (chats s) \<or> j = chat_id c"
    by (auto simp: map_has_def map_set_def update_conv' split: if_splits)
  ultimately show ?case by auto
qed

lemma pco_frame:
  "chats (processContactsOptimized E now cs s) = chats s"
  "heap (processContactsOptimized E now cs s) = heap s"
  "messages (processContactsOptimized E now cs s) = messages s"
  "config (processContactsOptimized E now cs s) = config s"
  "writeLocks (processContactsOptimized E now cs s) = writeLocks s"
  by (induction cs arbitrary: s) simp_all

lemma pco_cong:
  "contacts s = contacts t \<Longrightarrow>
   contacts (processContactsOptimized E now cs s) = contacts (processContactsOptimized E now cs t)"
proof (induction cs arbitrary: s t)
  case Nil then show ?case by simp
next
  case (Cons c cs)
  show ?case
    apply (simp only: processContactsOptimized.simps)
    apply (rule Cons.IH)
    using Cons.prems by simp
qed

lemma pco_keeps:
  "map_has j (contacts s) \<Longrightarrow> map_has j (contacts (processContactsOptimized E now cs s))"
proof (induction cs arbitrary: s)
  case Nil then show ?case by simp
next
  case (Cons c cs)
  show ?case
    apply (simp only: processContactsOptimized.simps)
    apply (rule Cons.IH)
    using Cons.prems by (simp add: map_has_def map_set_def update_conv')
qed

lemma pco_nonempty:
  "cs \<noteq> [] \<or> contacts s \<noteq> [] \<Longrightarrow> contacts (processContactsOptimized E now cs s) \<noteq> []"
proof (induction cs arbitrary: s)
  case Nil then show ?case by simp
next
  case (Cons c cs)
  show ?case
    apply (simp only: processContactsOptimized.simps)
    apply (rule Cons.IH)
    by (simp add: map_set_def)
qed

lemma pcm_frame:
  "chats (fst (processChatMessages now j ms s)) = chats s"
  "heap (fst (processChatMessages now j ms s)) = heap s"
  "contacts (fst (processChatMessages now j ms s)) = contacts s"
  "config (fst (processChatMessages now j ms s)) = config s"
  "writeLocks (fst (processChatMessages now j ms s)) = writeLocks s"
  "messages (fst (processChatMessages now j ms s)) \<noteq> []"
  by (simp_all add: processChatMessages_def Let_def map_set_def split: prod.splits)

lemma pcm_cong:
  "messages s = messages t \<Longrightarrow> config s = config t \<Longrightarrow>
   messages (fst (processChatMessages now j ms s)) = messages (fst (processChatMessages now j ms t))"
  by (simp add: processChatMessages_def Let_def chat_messages_def split: prod.splits)

lemma pg_frame:
  "chats (processGroups now gs s) = chats s"
  "heap (processGroups now gs s) = heap s"
  "contacts (processGroups now gs s) = contacts s"
  "config (processGroups now gs s) = config s"
  "writeLocks (processGroups now gs s) = writeLocks s"
  by (induction gs arbitrary: s) (auto simp: pcm_frame)

lemma pg_cong:
  "messages s = messages t \<Longrightarrow> config s = config t \<Longrightarrow>
   messages (processGroups now gs s) = messages (processGroups now gs t)"
proof (induction gs arbitrary: s t)
  case Nil then show ?case by simp
next
  case (Cons g gs)
  obtain j ms where g: "g = (j, ms)" by (cases g)
  show ?case
    unfolding g processGroups.simps
  proof (rule Cons.IH)
    show "messages (fst (processChatMessages now j ms s))
            = messages (fst (processChatMessages now j ms t))"
      using Cons.prems by (rule pcm_cong)
    show "config (fst (processChatMessages now j ms s))
            = config (fst (processChatMessages now j ms t))"
      using Cons.prems by (simp add: pcm_frame)
  qed
qed

lemma pg_nonempty:
  "gs \<noteq> [] \<or> messages s \<noteq> [] \<Longrightarrow> messages (processGroups now gs s) \<noteq> []"
proof (induction gs arbitrary: s)
  case Nil then show ?case by simp
next
  case (Cons g gs)
  obtain j ms where g: "g = (j, ms)" by (cases g)
  show ?case
    unfolding g processGroups.simps
    apply (rule Cons.IH)
    by (simp add: pcm_frame)
qed

lemma groupByChat_nonempty: "ms \<noteq> [] \<or> acc \<noteq> [] \<Longrightarrow> groupByChat E ms acc \<noteq> []"
proof (induction ms arbitrary: acc)
  case Nil then show ?case by simp
next
  case (Cons m ms)
  show ?case
    apply (simp only: groupByChat.simps Let_def)
    apply (rule Cons.IH)
    by (simp add: map_set_def)
qed

lemma pmo_frame:
  "chats (processMessagesOptimized E now ms s) = chats s"
  "heap (processMessagesOptimized E now ms s) = heap s"
  "contacts (processMessagesOptimized E now ms s) = contacts s"
  "config (processMessagesOptimized E now ms s) = config s"
  "writeLocks (processMessagesOptimized E now ms s) = writeLocks s"
  by (simp_all add: processMessagesOptimized_def pg_frame)

lemma pmo_cong:
  "messages s = messages t \<Longrightarrow> config s = config t \<Longrightarrow>
   messages (processMessagesOptimized E now ms s) = messages (processMessagesOptimized E now ms t)"
  unfolding processMessagesOptimized_def by (rule pg_cong)

lemma pmo_nonempty:
  "ms \<noteq> [] \<or> messages s \<noteq> [] \<Longrightarrow> messages (processMessagesOptimized E now ms s) \<noteq> []"
  unfolding processMessagesOptimized_def
  by (rule pg_nonempty) (use groupByChat_nonempty[of ms "[]" E] in auto)

lemma finalizeSyncProcess_returns:
  assumes "hasValidData s" "\<not> map_has ''file'' (writeLocks s)"
  shows "\<exists>s'. finalizeSyncProcess E later s = Some s' \<and>
           chats s' = chats s \<and> heap s' = heap s \<and> messages s' = messages s \<and>
           contacts s' = contacts s"
proof -
  from writeToFile_returns[OF assms(2), of E later "storeFile (config s)"]
  obtain s1 where w: "writeToFile E later (storeFile (config s)) s = Some s1"
    and f: "chats s1 = chats s" "heap s1 = heap s" "messages s1 = messages s"
      "contacts s1 = contacts s"
    by blast
  show ?thesis
    unfolding finalizeSyncProcess_def using assms(1) w f by (simp add: clearBackup_def)
qed

lemma history_start_frame:
  "chats (if \<not> isProcessingHistory s
          then if hasInitialData s0 then createBackup E now s0 else s0 else s) =
     (if \<not> isProcessingHistory s then chats s0 else chats s)"
  "heap (if \<not> isProcessingHistory s
          then if hasInitialData s0 then createBackup E now s0 else s0 else s) =
     (if \<not> isProcessingHistory s then heap s0 else heap s)"
  "messages (if \<not> isProcessingHistory s
          then if hasInitialData s0 then createBackup E now s0 else s0 else s) =
     (if \<not> isProcessingHistory s then messages s0 else messages s)"
  "contacts (if \<not> isProcessingHistory s
          then if hasInitialData s0 then createBackup E now s0 else s0 else s) =
     (if \<not> isProcessingHistory s then contacts s0 else contacts s)"
  "config (if \<not> isProcessingHistory s
          then if hasInitialData s0 then createBackup E now s0 else s0 else s) =
     (if \<not> isProcessingHistory s then config s0 else config s)"
  "writeLocks (if \<not> isProcessingHistory s
          then if hasInitialData s0 then createBackup E now s0 else s0 else s) =
     (if \<not> isProcessingHistory s then writeLocks s0 else writeLocks s)"
  by (simp_all add: createBackup_frame)

lemma processHistorySet_maps:
  assumes "syncType h \<noteq> 6"
    and "\<not> map_has ''file'' (writeLocks s)"
    and "hasValidData s \<or> h_chats h \<noteq> [] \<or> h_contacts h \<noteq> [] \<or> h_messages h \<noteq> []"
  shows "\<exists>s'. processHistorySet E now later h s = Some s' \<and>
           chats s' = chats (processChatsOptimized now (h_chats h)
                               (s\<lparr>chats := if clearsFirst h then [] else chats s\<rparr>)) \<and>
           heap s' = heap (processChatsOptimized now (h_chats h)
                             (s\<lparr>chats := if clearsFirst h then [] else chats s\<rparr>)) \<and>
           messages s' = messages (processMessagesOptimized E now (h_messages h)
                                     (s\<lparr>messages := if clearsFirst h then [] else messages s\<rparr>)) \<and>
           contacts s' = contacts (processContactsOptimized E now (h_contacts h) s)"
proof -
  define s0 where "s0 = s\<lparr>isProcessingHistory := True, syncStartTime := Some now,
                      hasInitialData := hasValidData s\<rparr>"
  define s1 where "s1 = (if \<not> isProcessingHistory s
                  then if hasInitialData s0 then createBackup E now s0 else s0
                  else s)"
  define s2 where "s2 = (if clearsFirst h then s1\<lparr>chats := [], messages := []\<rparr> else s1)"
  define s3 where "s3 = processChatsOptimized now (h_chats h) s2"
  define s4 where "s4 = processContactsOptimized E now (h_contacts h) s3"
  define s5 where "s5 = processMessagesOptimized E now (h_messages h) s4"
  define s6 where "s6 = updateStats s5"
  define C where "C = processChatsOptimized now (h_chats h)
                        (s\<lparr>chats := if clearsFirst h then [] else chats s\<rparr>)"
  define M where "M = processMessagesOptimized E now (h_messages h)
                        (s\<lparr>messages := if clearsFirst h then [] else messages s\<rparr>)"
  define K where "K = processContactsOptimized E now (h_contacts h) s"
  have f1: "chats s1 = chats s" "heap s1 = heap s" "messages s1 = messages s"
    "contacts s1 = contacts s" "config s1 = config s" "writeLocks s1 = writeLocks s"
    unfolding s1_def history_start_frame by (simp_all add: s0_def)
  have f2: "chats s2 = (if clearsFirst h then [] else chats s)" "heap s2 = heap s"
    "messages s2 = (if clearsFirst h then [] else messages s)"
    "contacts s2 = contacts s" "config s2 = config s" "writeLocks s2 = writeLocks s"
    unfolding s2_def using f1 by simp_all
  have c3: "chats s3 = chats C \<and> heap s3 = heap C"
    unfolding s3_def C_def by (rule pc_cong) (simp_all add: f2)
  have f3: "messages s3 = messages s2" "contacts s3 = contacts s2" "config s3 = config s2"
    "writeLocks s3 = writeLocks s2"
    unfolding s3_def by (simp_all add: pc_frame)
  have c4: "contacts s4 = contacts K"
    unfolding s4_def K_def by (rule pco_cong) (simp add: f3 f2)
  have f4: "chats s4 = chats s3" "heap s4 = heap s3" "messages s4 = messages s3"
    "config s4 = config s3" "writeLocks s4 = writeLocks s3"
    unfolding s4_def by (simp_all add: pco_frame)
  have c5: "messages s5 = messages M"
    unfolding s5_def M_def by (rule pmo_cong) (simp_all add: f4 f3 f2)
  have f5: "chats s5 = chats s4" "heap s5 = heap s4" "contacts s5 = contacts s4"
    "config s5 = config s4" "writeLocks s5 = writeLocks s4"
    unfolding s5_def by (simp_all add: pmo_frame)
  have d6: "chats s6 = chats C" "heap s6 = heap C" "messages s6 = messages M"
    "contacts s6 = contacts K" "\<not> map_has ''file'' (writeLocks s6)"
    unfolding s6_def updateStats_def using c3 c4 c5 f3 f4 f5 f2 assms(2) by simp_all
  have big: "length (h_chats h) > 10 \<or> length (h_messages h) > 100" if "clearsFirst h"
    using that by (simp add: clearsFirst_def)
  have "chats C \<noteq> [] \<or> messages M \<noteq> [] \<or> contacts K \<noteq> []"
  proof (cases "clearsFirst h")
    case True
    with big have "h_chats h \<noteq> [] \<or> h_messages h \<noteq> []" by auto
    then show ?thesis
      unfolding C_def M_def using pc_nonempty pmo_nonempty by blast
  next
    case False
    from assms(3) consider "chats s \<noteq> []" | "messages s \<noteq> []" | "contacts s \<noteq> []"
      | "h_chats h \<noteq> []" | "h_contacts h \<noteq> []" | "h_messages h \<noteq> []"
      by (auto simp: hasValidData_def)
    then show ?thesis
    proof cases
      case 1 then show ?thesis unfolding C_def using False pc_nonempty[of "h_chats h" "s\<lparr>chats := chats s\<rparr>" now] by simp
    next
      case 2 then show ?thesis unfolding M_def using False pmo_nonempty[of "h_messages h" "s\<lparr>messages := messages s\<rparr>" E now] by simp
    next
      case 3 then show ?thesis unfolding K_def using pco_nonempty by blast
    next
      case 4 then show ?thesis unfolding C_def using pc_nonempty by blast
    next
      case 5 then show ?thesis unfolding K_def using pco_nonempty by blast
    next
      case 6 then show ?thesis unfolding M_def using pmo_nonempty by blast
    qed
  qed
  then have v6: "hasValidData s6" using d6 by (auto simp: hasValidData_def)
  define s7o where "s7o = (if incrementalSave (config s6) \<and> hasValidData s6 \<and>
                      (case syncStartTime s6 of None \<Rightarrow> later | Some t \<Rightarrow> later - t) > 5000
                    then writeToFile E later (storeFile (config s6)) s6 else Some s6)"
  have "\<exists>s7. s7o = Some s7 \<and> chats s7 = chats s6 \<and> heap s7 = heap s6 \<and>
          messages s7 = messages s6 \<and> contacts s7 = contacts s6 \<and>
          \<not> map_has ''file'' (writeLocks s7)"
    unfolding s7o_def using writeToFile_returns[OF d6(5), of E later "storeFile (config s6)"] d6(5)
    by (cases "incrementalSave (config s6) \<and> hasValidData s6 \<and>
                      (case syncStartTime s6 of None \<Rightarrow> later | Some t \<Rightarrow> later - t) > 5000")
       auto
  then obtain s7 where s7: "s7o = Some s7" and f7: "chats s7 = chats s6" "heap s7 = heap s6"
    "messages s7 = messages s6" "contacts s7 = contacts s6" "\<not> map_has ''file'' (writeLocks s7)"
    by blast
  define s8 where "s8 = emit (HistoryProcessed (length (h_chats h)) (length (h_contacts h))
                              (length (h_messages h))) s7"
  have f8: "chats s8 = chats s6" "heap s8 = heap s6" "messages s8 = messages s6"
    "contacts s8 = contacts s6" "\<not> map_has ''file'' (writeLocks s8)"
    unfolding s8_def emit_def using f7 by simp_all
  have v8: "hasValidData s8" using v6 f8 by (simp add: hasValidData_def)
  have s3': "(if length (h_chats h) > 0 then processChatsOptimized now (h_chats h) s2 else s2) = s3"
    unfolding s3_def by (cases "h_chats h") simp_all
  have s4': "(if length (h_contacts h) > 0 then processContactsOptimized E now (h_contacts h) s3 else s3) = s4"
    unfolding s4_def by (cases "h_contacts h") simp_all
  have s5': "(if length (h_messages h) > 0 then processMessagesOptimized E now (h_messages h) s4 else s4) = s5"
    unfolding s5_def by (cases "h_messages h") (simp_all add: processMessagesOptimized_def)
  have eq: "processHistorySet E now later h s =
              (if isLatest h \<or> progress h \<ge> 100 then finalizeSyncProcess E later s8 else Some s8)"
    unfolding processHistorySet_def Let_def
    unfolding s0_def[symmetric] s1_def[symmetric]
    unfolding s2_def[symmetric]
    unfolding s3' s4' s5' s6_def[symmetric] s7o_def[symmetric] s7
    using assms(1) by (simp add: s8_def)
  show ?thesis
  proof (cases "isLatest h \<or> progress h \<ge> 100")
    case True
    from finalizeSyncProcess_returns[OF v8 f8(5), of E later]
    obtain s' where "finalizeSyncProcess E later s8 = Some s'"
      "chats s' = chats s8" "heap s' = heap s8" "messages s' = messages s8"
      "contacts s' = contacts s8" by blast
    then show ?thesis
      unfolding eq C_def[symmetric] M_def[symmetric] K_def[symmetric]
      using True f8 d6 by simp
  next
    case False
    then show ?thesis
      unfolding eq C_def[symmetric] M_def[symmetric] K_def[symmetric]
      using f8 d6 by simp
  qed
qed

lemma pcm_keys:
  "map_has j' (messages (fst (processChatMessages now j ms s))) \<longleftrightarrow>
     j' = j \<or> map_has j' (messages s)"
  by (auto simp: processChatMessages_def Let_def map_has_def map_set_def update_conv'
      split: prod.splits if_splits)

lemma pg_keys:
  "map_has j (messages (processGroups now gs s)) \<longleftrightarrow> map_has j (messages s) \<or> j \<in> fst ` set gs"
proof (induction gs arbitrary: s)
  case Nil then show ?case by simp
next
  case (Cons g gs)
  obtain j' ms where g: "g = (j', ms)" by (cases g)
  show ?case unfolding g processGroups.simps Cons.IH pcm_keys by auto
qed

lemma groupByChat_keys:
  "fst ` set (groupByChat E ms acc) =
     fst ` set acc \<union> (\<lambda>m. jidNormalizedUser E (key_remoteJid m)) ` set ms"
proof (induction ms arbitrary: acc)
  case Nil then show ?case by simp
next
  case (Cons m ms)
  show ?case
    unfolding groupByChat.simps Let_def Cons.IH
    by (auto simp: map_set_def dom_update map_has_def)
qed

lemma pmo_keys:
  "map_has j (messages (processMessagesOptimized E now ms s)) \<longleftrightarrow>
     map_has j (messages s) \<or> j \<in> (\<lambda>m. jidNormalizedUser E (key_remoteJid m)) ` set ms"
  unfolding processMessagesOptimized_def pg_keys groupByChat_keys by simp

text \<open>
  C4. \<^verbatim>\<open>clearsFirst\<close> is the test of line 177. For a batch that is not on-demand, arriving
  while the write lock is free and with data in the store or in the batch,
  \<^verbatim>\<open>processHistorySet\<close> returns, and the chats and messages it leaves are the batch merged
  into the empty maps if the batch is latest with more than 10 chats or more than 100
  messages, and into the maps the store held otherwise; the contacts are the batch merged
  into the store's contacts in both cases. So when nothing is cleared, every chat the
  store held keeps its object and every chat's message map stays; when the maps are
  cleared, only chats and message maps of the batch remain. With a chat and a message in
  the store, a latest batch of 2 chats and 5 messages leaves them in place beside the new
  ones, and a latest batch of 20 chats leaves the 20 chats and no messages.
\<close>

theorem history_clears_only_large_latest:
  assumes "syncType h \<noteq> 6"
    and "\<not> map_has ''file'' (writeLocks s)"
    and "hasValidData s \<or> h_chats h \<noteq> [] \<or> h_contacts h \<noteq> [] \<or> h_messages h \<noteq> []"
  shows "clearsFirst h = (isLatest h \<and> (10 < length (h_chats h) \<or> 100 < length (h_messages h)))
     \<and> (\<exists>s'. processHistorySet E now later h s = Some s' \<and>
           chats s' = chats (processChatsOptimized now (h_chats h)
                               (s\<lparr>chats := if clearsFirst h then [] else chats s\<rparr>)) \<and>
           heap s' = heap (processChatsOptimized now (h_chats h)
                             (s\<lparr>chats := if clearsFirst h then [] else chats s\<rparr>)) \<and>
           messages s' = messages (processMessagesOptimized E now (h_messages h)
                                     (s\<lparr>messages := if clearsFirst h then [] else messages s\<rparr>)) \<and>
           contacts s' = contacts (processContactsOptimized E now (h_contacts h) s) \<and>
           (\<not> clearsFirst h \<longrightarrow>
              (\<forall>j. map_has j (chats s) \<longrightarrow> map_get j (chats s') = map_get j (chats s)) \<and>
              (\<forall>r < length (heap s). heap s' ! r = heap s ! r) \<and>
              (\<forall>j. map_has j (messages s) \<longrightarrow> map_has j (messages s'))) \<and>
           (clearsFirst h \<longrightarrow>
              (\<forall>j. map_has j (chats s') \<longrightarrow> j \<in> chat_id ` set (h_chats h)) \<and>
              (\<forall>j. map_has j (messages s') \<longrightarrow>
                   j \<in> (\<lambda>m. jidNormalizedUser E (key_remoteJid m)) ` set (h_messages h))) \<and>
           (\<forall>j. map_has j (contacts s) \<longrightarrow> map_has j (contacts s')))
     \<and> map_option (\<lambda>s'. (map fst (chats s'), map (\<lambda>(j, ms). (j, map fst ms)) (messages s')))
         (processHistorySet plain_env 5 6 small_latest seeded_store)
       = Some ([''old'', ''c1'', ''c2''],
               [(''old'', [''m0'']), (''c1'', [''1'', ''2'', ''3'', ''4'', ''5''])])
     \<and> map_option (\<lambda>s'. (map fst (chats s'), messages s'))
         (processHistorySet plain_env 5 6 large_latest seeded_store)
       = Some (map show_nat [1 ..< 21], [])"
proof (intro conjI)
  show "clearsFirst h = (isLatest h \<and> (10 < length (h_chats h) \<or> 100 < length (h_messages h)))"
    by (simp add: clearsFirst_def)
next
  from processHistorySet_maps[OF assms, of E now later]
  obtain s' where r: "processHistorySet E now later h s = Some s'"
    and c: "chats s' = chats (processChatsOptimized now (h_chats h)
                               (s\<lparr>chats := if clearsFirst h then [] else chats s\<rparr>))"
    and hp: "heap s' = heap (processChatsOptimized now (h_chats h)
                             (s\<lparr>chats := if clearsFirst h then [] else chats s\<rparr>))"
    and m: "messages s' = messages (processMessagesOptimized E now (h_messages h)
                                     (s\<lparr>messages := if clearsFirst h then [] else messages s\<rparr>))"
    and k: "contacts s' = contacts (processContactsOptimized E now (h_contacts h) s)"
    by blast
  have keep: "(\<forall>j. map_has j (chats s) \<longrightarrow> map_get j (chats s') = map_get j (chats s)) \<and>
              (\<forall>r < length (heap s). heap s' ! r = heap s ! r) \<and>
              (\<forall>j. map_has j (messages s) \<longrightarrow> map_has j (messages s'))"
    if "\<not> clearsFirst h"
  proof (intro conjI allI impI)
    fix j assume "map_has j (chats s)"
    then show "map_get j (chats s') = map_get j (chats s)"
      unfolding c using that pc_keeps[of j "s\<lparr>chats := chats s\<rparr>" now "h_chats h"] by simp
  next
    fix r assume "r < length (heap s)"
    then show "heap s' ! r = heap s ! r"
      unfolding hp using pc_heap[of r "s\<lparr>chats := if clearsFirst h then [] else chats s\<rparr>" now "h_chats h"]
      by simp
  next
    fix j assume "map_has j (messages s)"
    then show "map_has j (messages s')"
      unfolding m pmo_keys using that by simp
  qed
  have gone: "(\<forall>j. map_has j (chats s') \<longrightarrow> j \<in> chat_id ` set (h_chats h)) \<and>
              (\<forall>j. map_has j (messages s') \<longrightarrow>
                   j \<in> (\<lambda>m. jidNormalizedUser E (key_remoteJid m)) ` set (h_messages h))"
    if "clearsFirst h"
  proof (intro conjI allI impI)
    fix j assume "map_has j (chats s')"
    then have "map_has j (chats (processChatsOptimized now (h_chats h) (s\<lparr>chats := []\<rparr>)))"
      unfolding c using that by simp
    from pc_keys[OF this] show "j \<in> chat_id ` set (h_chats h)" by (simp add: map_has_def)
  next
    fix j assume "map_has j (messages s')"
    then show "j \<in> (\<lambda>m. jidNormalizedUser E (key_remoteJid m)) ` set (h_messages h)"
      unfolding m pmo_keys using that by (simp add: map_has_def)
  qed
  have kept: "\<forall>j. map_has j (contacts s) \<longrightarrow> map_has j (contacts s')"
    unfolding k using pco_keeps by blast
  show "\<exists>s'. processHistorySet E now later h s = Some s' \<and>
           chats s' = chats (processChatsOptimized now (h_chats h)
                               (s\<lparr>chats := if clearsFirst h then [] else chats s\<rparr>)) \<and>
           heap s' = heap (processChatsOptimized now (h_chats h)
                             (s\<lparr>chats := if clearsFirst h then [] else chats s\<rparr>)) \<and>
           messages s' = messages (processMessagesOptimized E now (h_messages h)
                                     (s\<lparr>messages := if clearsFirst h then [] else messages s\<rparr>)) \<and>
           contacts s' = contacts (processContactsOptimized E now (h_contacts h) s) \<and>
           (\<not> clearsFirst h \<longrightarrow>
              (\<forall>j. map_has j (chats s) \<longrightarrow> map_get j (chats s') = map_get j (chats s)) \<and>
              (\<forall>r < length (heap s). heap s' ! r = heap s ! r) \<and>
              (\<forall>j. map_has j (messages s) \<longrightarrow> map_has j (messages s'))) \<and>
           (clearsFirst h \<longrightarrow>
              (\<forall>j. map_has j (chats s') \<longrightarrow> j \<in> chat_id ` set (h_chats h)) \<and>
              (\<forall>j. map_has j (messages s') \<longrightarrow>
                   j \<in> (\<lambda>m. jidNormalizedUser E (key_remoteJid m)) ` set (h_messages h))) \<and>
           (\<forall>j. map_has j (contacts s) \<longrightarrow> map_has j (contacts s'))"
    using r c hp m k keep gone kept by blast
next
  show "map_option (\<lambda>s'. (map fst (chats s'), map (\<lambda>(j, ms). (j, map fst ms)) (messages s')))
         (processHistorySet plain_env 5 6 small_latest seeded_store)
       = Some ([''old'', ''c1'', ''c2''],
               [(''old'', [''m0'']), (''c1'', [''1'', ''2'', ''3'', ''4'', ''5''])])"
    by code_simp
next
  show "map_option (\<lambda>s'. (map fst (chats s'), messages s'))
         (processHistorySet plain_env 5 6 large_latest seeded_store)
       = Some (map show_nat [1 ..< 21], [])"
    by code_simp
qed

theorem history_clears_only_large_latest_witness:
  "syncType small_latest \<noteq> 6
   \<and> \<not> map_has ''file'' (writeLocks seeded_store)
   \<and> hasValidData seeded_store
   \<and> \<not> clearsFirst small_latest
   \<and> map_has ''old'' (chats seeded_store)
   \<and> (\<exists>s'. processHistorySet plain_env 5 6 small_latest seeded_store = Some s' \<and>
             map_get ''old'' (chats s') = map_get ''old'' (chats seeded_store) \<and>
             map_has ''old'' (messages s'))"
proof -
  have a: "syncType small_latest \<noteq> 6" "\<not> map_has ''file'' (writeLocks seeded_store)"
    "hasValidData seeded_store" "\<not> clearsFirst small_latest"
    "map_has ''old'' (chats seeded_store)" "map_has ''old'' (messages seeded_store)"
    by code_simp+
  have b: "hasValidData seeded_store \<or> h_chats small_latest \<noteq> [] \<or> h_contacts small_latest \<noteq> []
            \<or> h_messages small_latest \<noteq> []"
    using a(3) by simp
  from history_clears_only_large_latest[OF a(1) a(2) b, of plain_env 5 6, THEN conjunct2, THEN conjunct1]
  obtain s' where "processHistorySet plain_env 5 6 small_latest seeded_store = Some s'"
    "\<not> clearsFirst small_latest \<longrightarrow>
              (\<forall>j. map_has j (chats seeded_store) \<longrightarrow>
                   map_get j (chats s') = map_get j (chats seeded_store)) \<and>
              (\<forall>r < length (heap seeded_store). heap s' ! r = heap seeded_store ! r) \<and>
              (\<forall>j. map_has j (messages seeded_store) \<longrightarrow> map_has j (messages s'))"
    by blast
  then show ?thesis using a by blast
qed

end
